theory Spec2Isabelle
  imports Complex_Main
begin

section \<open>The molecular dynamics program \<open>md.c\<close>\<close>

text \<open>
  A shallow embedding of \<open>src/LabsCodes/md.c\<close>: the pseudorandom matrix generator
  \<open>r8mat_uniform_ab\<close>, the displacement routine \<open>dist\<close>, the force and energy routine
  \<open>compute\<close>, \<open>initialize\<close>, the velocity Verlet routine \<open>update\<close> and the time stepping
  loop of \<open>main\<close>.

  Conventions of the embedding.
  \<^item> A C \<open>double\<close> is a \<open>real\<close> and every arithmetic operation is the exact one: rounding,
    infinities and NaN are not modelled. A decimal literal of the source is the rational
    number it denotes. A division whose divisor is zero has no real result (C gives an
    infinity or NaN); the embedding reports it as the fault \<open>DivisionByZero\<close>.
  \<^item> A C array is a list. Reading or writing outside it is undefined behaviour in C;
    the embedding reports it as the fault \<open>OutOfBounds\<close>. A pointer into an array,
    \<open>pos + k*nd\<close>, is the list from that slot on, \<open>drop (k * nd) pos\<close>.
  \<^item> The C \<open>int\<close> of the generator's seed is an \<open>int\<close> with every intermediate result
    checked against the 32 bit range; leaving it is the fault \<open>SignedOverflow\<close>.
    Counts and loop indices (\<open>np\<close>, \<open>nd\<close>, \<open>m\<close>, \<open>n\<close>, \<open>i\<close>, \<open>j\<close>, \<open>k\<close>, \<open>step\<close>) are
    natural numbers; they are taken to be small enough for \<open>i + j * nd\<close> to stay in range.
  \<^item> \<open>exit (1)\<close> is the fault \<open>Exit 1 msg\<close>, where \<open>msg\<close> holds the lines written to
    \<open>stderr\<close>.
  \<^item> A function that writes through its array parameters returns the new arrays.
\<close>

subsection \<open>Faults, checked memory access and loops\<close>

datatype fault =
    OutOfBounds
  | SignedOverflow
  | DivisionByZero
  | Exit int "string list"

definition bnd :: "fault + 'a \<Rightarrow> ('a \<Rightarrow> fault + 'b) \<Rightarrow> fault + 'b" where
  "bnd m g = (case m of Inl e \<Rightarrow> Inl e | Inr x \<Rightarrow> g x)"

definition rd :: "real list \<Rightarrow> nat \<Rightarrow> fault + real" where
  "rd xs i = (if i < length xs then Inr (xs ! i) else Inl OutOfBounds)"

definition wr :: "real list \<Rightarrow> nat \<Rightarrow> real \<Rightarrow> fault + real list" where
  "wr xs i v = (if i < length xs then Inr (xs[i := v]) else Inl OutOfBounds)"

definition fdiv :: "real \<Rightarrow> real \<Rightarrow> fault + real" where
  "fdiv x y = (if y = 0 then Inl DivisionByZero else Inr (x / y))"

text \<open>\<open>for (i = i0; i < n; i++) body\<close>, the loop state threaded through the body.\<close>

function for_loop :: "nat \<Rightarrow> nat \<Rightarrow> (nat \<Rightarrow> 's \<Rightarrow> fault + 's) \<Rightarrow> 's \<Rightarrow> fault + 's" where
  "for_loop i n body s =
     (if i < n
      then (case body i s of Inl e \<Rightarrow> Inl e | Inr s' \<Rightarrow> for_loop (Suc i) n body s')
      else Inr s)"
  by pat_completeness auto
termination
  by (relation "measure (\<lambda>(i, n, body, s). n - i)") auto

declare for_loop.simps [simp del]

subsection \<open>\<open>r8mat_uniform_ab\<close> (lines 305 to 366)\<close>

definition in_int :: "int \<Rightarrow> bool" where
  "in_int x \<longleftrightarrow> - 2147483648 \<le> x \<and> x \<le> 2147483647"

definition chk :: "int \<Rightarrow> fault + int" where
  "chk x = (if in_int x then Inr x else Inl SignedOverflow)"

text \<open>C's integer division truncates towards zero.\<close>

definition c_div :: "int \<Rightarrow> int \<Rightarrow> int" where
  "c_div x y = sgn x * sgn y * (\<bar>x\<bar> div \<bar>y\<bar>)"

definition i4_huge :: int where
  "i4_huge = 2147483647"

text \<open>Lines 353 to 360: the new seed.\<close>

definition seed_step :: "int \<Rightarrow> fault + int" where
  "seed_step seed =
     (let k = c_div seed 127773 in
      bnd (chk (k * 127773)) (\<lambda>t1.
      bnd (chk (seed - t1)) (\<lambda>t2.
      bnd (chk (16807 * t2)) (\<lambda>t3.
      bnd (chk (k * 2836)) (\<lambda>t4.
      bnd (chk (t3 - t4)) (\<lambda>seed1.
      if seed1 < 0 then chk (seed1 + i4_huge) else Inr seed1))))))"

text \<open>Lines 353 to 361 without the store: the new seed and the value drawn from it.\<close>

definition uniform_draw :: "real \<Rightarrow> real \<Rightarrow> int \<Rightarrow> fault + (int \<times> real)" where
  "uniform_draw a b seed =
     bnd (seed_step seed) (\<lambda>seed'.
     Inr (seed', a + (b - a) * real_of_int seed' * (4.656612875 / 10 ^ 10)))"

definition r8mat_uniform_ab ::
  "nat \<Rightarrow> nat \<Rightarrow> real \<Rightarrow> real \<Rightarrow> int \<Rightarrow> real list \<Rightarrow> fault + (int \<times> real list)" where
  "r8mat_uniform_ab m n a b seed r =
     (if seed = 0
      then Inl (Exit 1 ['''', ''R8MAT_UNIFORM_AB - Fatal error!'', ''  Input value of SEED = 0.''])
      else for_loop 0 n (\<lambda>j.
             for_loop 0 m (\<lambda>i (seed, r).
               bnd (uniform_draw a b seed) (\<lambda>(seed, v).
               bnd (wr r (i + j * m) v) (\<lambda>r. Inr (seed, r)))))
             (seed, r))"

subsection \<open>\<open>dist\<close> (lines 217 to 248)\<close>

definition dist :: "nat \<Rightarrow> real list \<Rightarrow> real list \<Rightarrow> real list \<Rightarrow> fault + (real \<times> real list)" where
  "dist nd r1 r2 dr =
     bnd (for_loop 0 nd (\<lambda>i (d, dr).
            bnd (rd r1 i) (\<lambda>x1.
            bnd (rd r2 i) (\<lambda>x2.
            bnd (wr dr i (x1 - x2)) (\<lambda>dr.
            bnd (rd dr i) (\<lambda>x. Inr (d + x * x, dr))))))
          (0, dr))
       (\<lambda>(d, dr). Inr (sqrt d, dr))"

subsection \<open>\<open>compute\<close> (lines 112 to 215)\<close>

definition PI2 :: real where
  "PI2 = 3.141592653589793 / 2.0"

text \<open>Lines 177 to 198, the body of the loop over \<open>j\<close>.\<close>

definition pair_step ::
  "nat \<Rightarrow> real list \<Rightarrow> nat \<Rightarrow> nat \<Rightarrow> real list \<times> real list \<times> real
     \<Rightarrow> fault + (real list \<times> real list \<times> real)" where
  "pair_step nd pos k j = (\<lambda>(f, rij, pe).
     if k \<noteq> j
     then bnd (dist nd (drop (k * nd) pos) (drop (j * nd) pos) rij) (\<lambda>(d, rij).
          let d2 = (if d < PI2 then d else PI2);
              pe = pe + 0.5 * (sin d2) ^ 2
          in bnd (for_loop 0 nd (\<lambda>i f.
                    bnd (rd f (i + k * nd)) (\<lambda>fk.
                    bnd (rd rij i) (\<lambda>x.
                    bnd (fdiv (x * sin (2.0 * d2)) d) (\<lambda>q.
                    wr f (i + k * nd) (fk - q)))))
                  f)
               (\<lambda>f. Inr (f, rij, pe)))
     else Inr (f, rij, pe))"

text \<open>Lines 166 to 206, the body of the loop over \<open>k\<close>.\<close>

definition particle_step ::
  "nat \<Rightarrow> nat \<Rightarrow> real list \<Rightarrow> real list \<Rightarrow> nat \<Rightarrow> real list \<times> real list \<times> real \<times> real
     \<Rightarrow> fault + (real list \<times> real list \<times> real \<times> real)" where
  "particle_step np nd pos vel k = (\<lambda>(f, rij, pe, ki).
     bnd (for_loop 0 nd (\<lambda>i f. wr f (i + k * nd) 0.0) f) (\<lambda>f.
     bnd (for_loop 0 np (pair_step nd pos k) (f, rij, pe)) (\<lambda>(f, rij, pe).
     bnd (for_loop 0 nd (\<lambda>i ki.
            bnd (rd vel (i + k * nd)) (\<lambda>v. Inr (ki + v * v)))
          ki)
       (\<lambda>ki. Inr (f, rij, pe, ki)))))"

text \<open>
  The last argument \<open>rij\<close> is the content of the local array \<open>double rij[3]\<close> when the
  function is entered: C leaves it indeterminate. The result is the force array and the
  values stored to \<open>*pot\<close> and \<open>*kin\<close>.
\<close>

definition compute ::
  "nat \<Rightarrow> nat \<Rightarrow> real list \<Rightarrow> real list \<Rightarrow> real \<Rightarrow> real list \<Rightarrow> real list
     \<Rightarrow> fault + (real list \<times> real \<times> real)" where
  "compute np nd pos vel mass f rij =
     bnd (for_loop 0 np (particle_step np nd pos vel) (f, rij, 0.0, 0.0)) (\<lambda>(f, rij, pe, ki).
     Inr (f, pe, ki * 0.5 * mass))"

subsection \<open>\<open>initialize\<close> (lines 251 to 302)\<close>

definition initialize ::
  "nat \<Rightarrow> nat \<Rightarrow> real list \<Rightarrow> real list \<Rightarrow> real list
     \<Rightarrow> fault + (real list \<times> real list \<times> real list)" where
  "initialize np nd pos vel acc =
     (let seed = 123456789 in
      bnd (r8mat_uniform_ab nd np 0.0 10.0 seed pos) (\<lambda>(seed, pos).
      bnd (for_loop 0 np (\<lambda>j. for_loop 0 nd (\<lambda>i vel. wr vel (i + j * nd) 0.0)) vel) (\<lambda>vel.
      bnd (for_loop 0 np (\<lambda>j. for_loop 0 nd (\<lambda>i acc. wr acc (i + j * nd) 0.0)) acc) (\<lambda>acc.
      Inr (pos, vel, acc)))))"

subsection \<open>\<open>update\<close> (lines 368 to 423)\<close>

text \<open>Lines 416 to 418, the three assignments to slot \<open>i + j * nd\<close>.\<close>

definition update_slot ::
  "real list \<Rightarrow> real \<Rightarrow> real \<Rightarrow> nat \<Rightarrow> real list \<times> real list \<times> real list
     \<Rightarrow> fault + (real list \<times> real list \<times> real list)" where
  "update_slot f rmass dt s = (\<lambda>(pos, vel, acc).
     bnd (bnd (rd pos s) (\<lambda>x.
          bnd (rd vel s) (\<lambda>v.
          bnd (rd acc s) (\<lambda>a.
          wr pos s (x + v * dt + 0.5 * a * dt * dt))))) (\<lambda>pos.
     bnd (bnd (rd vel s) (\<lambda>v.
          bnd (rd f s) (\<lambda>fs.
          bnd (rd acc s) (\<lambda>a.
          wr vel s (v + 0.5 * dt * (fs * rmass + a)))))) (\<lambda>vel.
     bnd (bnd (rd f s) (\<lambda>fs.
          wr acc s (fs * rmass))) (\<lambda>acc.
     Inr (pos, vel, acc)))))"

definition update ::
  "nat \<Rightarrow> nat \<Rightarrow> real list \<Rightarrow> real list \<Rightarrow> real list \<Rightarrow> real list \<Rightarrow> real \<Rightarrow> real
     \<Rightarrow> fault + (real list \<times> real list \<times> real list)" where
  "update np nd pos vel f acc mass dt =
     bnd (fdiv 1.0 mass) (\<lambda>rmass.
     for_loop 0 np (\<lambda>j. for_loop 0 nd (\<lambda>i. update_slot f rmass dt (i + j * nd)))
       (pos, vel, acc))"

subsection \<open>\<open>main\<close> (lines 28 to 109)\<close>

text \<open>The variables of \<open>main\<close> that the time stepping loop reads and writes.\<close>

record main_state =
  m_acc :: "real list"
  m_force :: "real list"
  m_pos :: "real list"
  m_vel :: "real list"
  m_potential :: real
  m_kinetic :: real
  m_e0 :: real

text \<open>
  What C leaves indeterminate: the content of the four blocks \<open>malloc\<close> returns, the three
  uninitialised scalars, and the content of the local array \<open>rij\<close> of \<open>compute\<close> at each
  of its calls (\<open>g_rij g step\<close> in the iteration \<open>step\<close>).
\<close>

record indeterminate =
  g_acc :: "nat \<Rightarrow> real"
  g_force :: "nat \<Rightarrow> real"
  g_pos :: "nat \<Rightarrow> real"
  g_vel :: "nat \<Rightarrow> real"
  g_potential :: real
  g_kinetic :: real
  g_e0 :: real
  g_rij :: "nat \<Rightarrow> real list"

text \<open>\<open>malloc (n * sizeof (double))\<close>, taken to succeed: \<open>n\<close> slots of indeterminate content.\<close>

definition malloc_doubles :: "nat \<Rightarrow> (nat \<Rightarrow> real) \<Rightarrow> real list" where
  "malloc_doubles n c = map c [0..<n]"

text \<open>Lines 78 to 92, the body of the loop over \<open>step\<close>.\<close>

definition main_iter ::
  "nat \<Rightarrow> nat \<Rightarrow> real \<Rightarrow> real \<Rightarrow> (nat \<Rightarrow> real list) \<Rightarrow> nat \<Rightarrow> main_state \<Rightarrow> fault + main_state" where
  "main_iter np nd mass dt rij step st =
     bnd (if step = 0
          then bnd (initialize np nd (m_pos st) (m_vel st) (m_acc st)) (\<lambda>(pos, vel, acc).
               Inr (st\<lparr>m_pos := pos, m_vel := vel, m_acc := acc\<rparr>))
          else bnd (update np nd (m_pos st) (m_vel st) (m_force st) (m_acc st) mass dt)
                 (\<lambda>(pos, vel, acc).
               Inr (st\<lparr>m_pos := pos, m_vel := vel, m_acc := acc\<rparr>))) (\<lambda>st.
     bnd (compute np nd (m_pos st) (m_vel st) mass (m_force st) (rij step)) (\<lambda>(f, pot, kin).
     let st = st\<lparr>m_force := f, m_potential := pot, m_kinetic := kin\<rparr>
     in Inr (if step = 0 then st\<lparr>m_e0 := m_potential st + m_kinetic st\<rparr> else st)))"

text \<open>
  \<open>main\<close> with its constants \<open>np\<close>, \<open>nd\<close>, \<open>step_num\<close>, \<open>dt\<close> and \<open>mass\<close> as parameters.
  The loop \<open>for (step = 0; step <= step_num; step++)\<close> runs while
  \<open>step < step_num + 1\<close>. The result is what \<open>printf\<close> is given (the potential energy,
  the kinetic energy and the relative drift of their sum; the formatting by \<open>%f\<close> is not
  modelled) and the exit status.
\<close>

definition main_with ::
  "nat \<Rightarrow> nat \<Rightarrow> nat \<Rightarrow> real \<Rightarrow> real \<Rightarrow> indeterminate
     \<Rightarrow> fault + ((real \<times> real \<times> real) \<times> int)" where
  "main_with np nd step_num dt mass g =
     (let st = \<lparr>m_acc = malloc_doubles (nd * np) (g_acc g),
                m_force = malloc_doubles (nd * np) (g_force g),
                m_pos = malloc_doubles (nd * np) (g_pos g),
                m_vel = malloc_doubles (nd * np) (g_vel g),
                m_potential = g_potential g,
                m_kinetic = g_kinetic g,
                m_e0 = g_e0 g\<rparr>
      in bnd (for_loop 0 (Suc step_num) (main_iter np nd mass dt (g_rij g)) st) (\<lambda>st.
         bnd (fdiv (m_potential st + m_kinetic st - m_e0 st) (m_e0 st)) (\<lambda>drift.
         Inr ((m_potential st, m_kinetic st, drift), 0))))"

definition main :: "indeterminate \<Rightarrow> fault + ((real \<times> real \<times> real) \<times> int)" where
  "main g = main_with 2000 3 100 0.0001 1.0 g"

section \<open>Reference definitions\<close>

text \<open>
  The recursion the generator is documented to implement, \<open>seed = 16807 * seed mod (2^31 - 1)\<close>:
  \<open>lcg seed p\<close> is the seed after \<open>p\<close> draws, \<open>drawn a b seed q\<close> the value of draw number
  \<open>q\<close> (counted from 0), and \<open>filled a b seed r p\<close> the seed and the array after the first
  \<open>p\<close> slots of \<open>r\<close> have been filled in order.
\<close>

primrec lcg :: "int \<Rightarrow> nat \<Rightarrow> int" where
  "lcg seed 0 = seed"
| "lcg seed (Suc p) = (16807 * lcg seed p) mod (2 ^ 31 - 1)"

definition drawn :: "real \<Rightarrow> real \<Rightarrow> int \<Rightarrow> nat \<Rightarrow> real" where
  "drawn a b seed q = a + (b - a) * real_of_int (lcg seed (Suc q)) * (4.656612875 / 10 ^ 10)"

definition filled :: "real \<Rightarrow> real \<Rightarrow> int \<Rightarrow> real list \<Rightarrow> nat \<Rightarrow> int \<times> real list" where
  "filled a b seed r p = (lcg seed p, map (drawn a b seed) [0..<p] @ drop p r)"

text \<open>
  The velocity Verlet step of one slot, in the words of the spec: \<open>advanced \<dots> p\<close> is the
  state in which the slots below \<open>p\<close> hold the new position, velocity and acceleration,
  each computed from the old values of that slot, and the other slots are untouched.
\<close>

definition advanced ::
  "real \<Rightarrow> real \<Rightarrow> real list \<Rightarrow> real list \<Rightarrow> real list \<Rightarrow> real list \<Rightarrow> nat
     \<Rightarrow> real list \<times> real list \<times> real list" where
  "advanced mass dt f pos vel acc p =
     (map (\<lambda>s. if s < p then pos ! s + vel ! s * dt + 0.5 * acc ! s * dt\<^sup>2 else pos ! s)
        [0..<length pos],
      map (\<lambda>s. if s < p then vel ! s + 0.5 * dt * (f ! s / mass + acc ! s) else vel ! s)
        [0..<length vel],
      map (\<lambda>s. if s < p then f ! s / mass else acc ! s) [0..<length acc])"

text \<open>
  The evaluator in the words of the spec. Particle \<open>k\<close> occupies the slots \<open>i + k * nd\<close>,
  \<open>i < nd\<close>. For two particles, \<open>displacement\<close> is the difference of their positions in
  dimension \<open>i\<close> and \<open>distance\<close> its Euclidean norm; \<open>clamped\<close> cuts a distance off at the
  program's constant \<open>PI2\<close> (its \<open>\<pi>/2\<close>) and enters only the sine terms, while the
  quotient of \<open>pair_force\<close> divides by the distance itself. The force on particle \<open>k\<close>
  starts at zero and has \<open>pair_force\<close> subtracted for every other particle \<open>j\<close>; the
  potential adds \<open>0.5 * sin\<^sup>2\<close> of the clamped distance for every ordered pair; the kinetic
  energy is the sum of the squared velocity components times \<open>0.5 * mass\<close>. Two particles
  at distance 0 make the quotient \<open>0 / 0\<close>: then the reference, like the embedding of the
  code, has no real result.
\<close>

definition others :: "nat \<Rightarrow> nat \<Rightarrow> nat list" where
  "others n k = filter (\<lambda>j. j \<noteq> k) [0..<n]"

definition displacement :: "nat \<Rightarrow> real list \<Rightarrow> nat \<Rightarrow> nat \<Rightarrow> nat \<Rightarrow> real" where
  "displacement nd pos k j i = pos ! (i + k * nd) - pos ! (i + j * nd)"

definition distance :: "nat \<Rightarrow> real list \<Rightarrow> nat \<Rightarrow> nat \<Rightarrow> real" where
  "distance nd pos k j = sqrt (\<Sum>i\<leftarrow>[0..<nd]. (displacement nd pos k j i)\<^sup>2)"

definition clamped :: "real \<Rightarrow> real" where
  "clamped d = min d PI2"

definition pair_potential :: "nat \<Rightarrow> real list \<Rightarrow> nat \<Rightarrow> nat \<Rightarrow> real" where
  "pair_potential nd pos k j = 0.5 * (sin (clamped (distance nd pos k j)))\<^sup>2"

definition pair_force :: "nat \<Rightarrow> real list \<Rightarrow> nat \<Rightarrow> nat \<Rightarrow> nat \<Rightarrow> real" where
  "pair_force nd pos k j i =
     displacement nd pos k j i * sin (2 * clamped (distance nd pos k j)) / distance nd pos k j"

definition force_ref :: "nat \<Rightarrow> nat \<Rightarrow> real list \<Rightarrow> nat \<Rightarrow> nat \<Rightarrow> real" where
  "force_ref nd np pos k i = foldl (\<lambda>a j. a - pair_force nd pos k j i) 0 (others np k)"

definition potential_ref :: "nat \<Rightarrow> nat \<Rightarrow> real list \<Rightarrow> real" where
  "potential_ref nd np pos = (\<Sum>k\<leftarrow>[0..<np]. \<Sum>j\<leftarrow>others np k. pair_potential nd pos k j)"

definition kinetic_ref :: "nat \<Rightarrow> nat \<Rightarrow> real list \<Rightarrow> real \<Rightarrow> real" where
  "kinetic_ref nd np vel mass = 0.5 * mass * (\<Sum>k\<leftarrow>[0..<np]. \<Sum>i\<leftarrow>[0..<nd]. (vel ! (i + k * nd))\<^sup>2)"

definition coincident :: "nat \<Rightarrow> nat \<Rightarrow> real list \<Rightarrow> bool" where
  "coincident nd np pos \<longleftrightarrow>
     0 < nd \<and> (\<exists>k\<in>set [0..<np]. \<exists>j\<in>set (others np k). distance nd pos k j = 0)"

definition evaluate_ref ::
  "nat \<Rightarrow> nat \<Rightarrow> real list \<Rightarrow> real list \<Rightarrow> real \<Rightarrow> fault + (real list \<times> real \<times> real)" where
  "evaluate_ref np nd pos vel mass =
     (if coincident nd np pos then Inl DivisionByZero
      else Inr (map (\<lambda>s. force_ref nd np pos (s div nd) (s mod nd)) [0..<np * nd],
                potential_ref nd np pos,
                kinetic_ref nd np vel mass))"

text \<open>
  Two lists used to state what the loops have done so far: \<open>block_upd nd k i G F\<close> is \<open>F\<close>
  with the first \<open>i\<close> slots of particle \<open>k\<close> replaced by \<open>G\<close>, and
  \<open>forces_upto nd np pos f k\<close> is \<open>f\<close> with the slots of the particles below \<open>k\<close> replaced
  by their reference forces.
\<close>

definition block_upd :: "nat \<Rightarrow> nat \<Rightarrow> nat \<Rightarrow> (nat \<Rightarrow> real) \<Rightarrow> real list \<Rightarrow> real list" where
  "block_upd nd k i G F = map (\<lambda>s. if k * nd \<le> s \<and> s < k * nd + i then G s else F ! s) [0..<length F]"

definition forces_upto :: "nat \<Rightarrow> nat \<Rightarrow> real list \<Rightarrow> real list \<Rightarrow> nat \<Rightarrow> real list" where
  "forces_upto nd np pos f k =
     map (\<lambda>s. if s < k * nd then force_ref nd np pos (s div nd) (s mod nd) else f ! s)
       [0..<length f]"

text \<open>
  The driver in the words of the spec. \<open>driver_state \<dots> st0 s\<close> is the state after step \<open>s\<close>:
  step 0 initialises, evaluates and records the reference energy \<open>potential + kinetic\<close>;
  step \<open>s + 1\<close> integrates with the forces of step \<open>s\<close> and evaluates at the new positions.
  \<open>driver_report\<close> is what is reported after the last step, \<open>fresh_state\<close> the state the
  driver starts from, and \<open>sized n st\<close> says that the four fields of \<open>st\<close> have \<open>n\<close> slots.
\<close>

primrec driver_state ::
  "nat \<Rightarrow> nat \<Rightarrow> real \<Rightarrow> real \<Rightarrow> (nat \<Rightarrow> real list) \<Rightarrow> main_state \<Rightarrow> nat \<Rightarrow> fault + main_state" where
  "driver_state np nd mass dt rij st0 0 =
     bnd (initialize np nd (m_pos st0) (m_vel st0) (m_acc st0)) (\<lambda>(pos, vel, acc).
     bnd (compute np nd pos vel mass (m_force st0) (rij 0)) (\<lambda>(f, pot, kin).
     Inr \<lparr>m_acc = acc, m_force = f, m_pos = pos, m_vel = vel,
          m_potential = pot, m_kinetic = kin, m_e0 = pot + kin\<rparr>))"
| "driver_state np nd mass dt rij st0 (Suc s) =
     bnd (driver_state np nd mass dt rij st0 s) (\<lambda>st.
     bnd (update np nd (m_pos st) (m_vel st) (m_force st) (m_acc st) mass dt) (\<lambda>(pos, vel, acc).
     bnd (compute np nd pos vel mass (m_force st) (rij (Suc s))) (\<lambda>(f, pot, kin).
     Inr (st\<lparr>m_acc := acc, m_force := f, m_pos := pos, m_vel := vel,
             m_potential := pot, m_kinetic := kin\<rparr>))))"

definition driver_report :: "main_state \<Rightarrow> fault + ((real \<times> real \<times> real) \<times> int)" where
  "driver_report st =
     bnd (fdiv (m_potential st + m_kinetic st - m_e0 st) (m_e0 st)) (\<lambda>drift.
     Inr ((m_potential st, m_kinetic st, drift), 0))"

definition fresh_state :: "nat \<Rightarrow> nat \<Rightarrow> indeterminate \<Rightarrow> main_state" where
  "fresh_state np nd g =
     \<lparr>m_acc = malloc_doubles (nd * np) (g_acc g),
      m_force = malloc_doubles (nd * np) (g_force g),
      m_pos = malloc_doubles (nd * np) (g_pos g),
      m_vel = malloc_doubles (nd * np) (g_vel g),
      m_potential = g_potential g,
      m_kinetic = g_kinetic g,
      m_e0 = g_e0 g\<rparr>"

definition sized :: "nat \<Rightarrow> main_state \<Rightarrow> bool" where
  "sized n st \<longleftrightarrow>
     length (m_acc st) = n \<and> length (m_force st) = n \<and> length (m_pos st) = n \<and>
     length (m_vel st) = n"

section \<open>Loops and memory access\<close>

lemma bnd_simps [simp]: "bnd (Inl e) g = Inl e" "bnd (Inr x) g = g x"
  by (simp_all add: bnd_def)

lemma for_loop_done: "n \<le> i \<Longrightarrow> for_loop i n body s = Inr s"
  by (simp add: for_loop.simps)

lemma for_loop_step:
  "i < n \<Longrightarrow> for_loop i n body s = bnd (body i s) (for_loop (Suc i) n body)"
  by (subst for_loop.simps) (simp add: bnd_def)

lemma for_loop_rule:
  assumes "I i s" and "i \<le> n"
    and step: "\<And>j t. i \<le> j \<Longrightarrow> j < n \<Longrightarrow> I j t \<Longrightarrow>
      (case body j t of Inl e \<Rightarrow> Q e | Inr t' \<Rightarrow> I (Suc j) t')"
  shows "case for_loop i n body s of Inl e \<Rightarrow> Q e | Inr s' \<Rightarrow> I n s'"
  using assms(1,2) step
proof (induction "n - i" arbitrary: i s)
  case 0
  then show ?case by (simp add: for_loop_done)
next
  case (Suc d)
  then have lt: "i < n" by simp
  have b: "case body i s of Inl e \<Rightarrow> Q e | Inr t' \<Rightarrow> I (Suc i) t'"
    using Suc.prems(3)[of i s] lt Suc.prems(1) by simp
  show ?case
  proof (cases "body i s")
    case (Inl e)
    with b show ?thesis by (simp add: for_loop_step[OF lt])
  next
    case (Inr t)
    with b have "I (Suc i) t" by simp
    moreover have "d = n - Suc i" using Suc.hyps(2) by simp
    moreover have "Suc i \<le> n" using lt by simp
    ultimately have "case for_loop (Suc i) n body t of Inl e \<Rightarrow> Q e | Inr s' \<Rightarrow> I n s'"
      using Suc.prems(3) by (intro Suc.hyps(1)) auto
    then show ?thesis by (simp add: for_loop_step[OF lt] Inr)
  qed
qed

text \<open>Total correctness: every iteration succeeds.\<close>

lemma for_loop_total:
  assumes "I i s" and "i \<le> n"
    and step: "\<And>j t. i \<le> j \<Longrightarrow> j < n \<Longrightarrow> I j t \<Longrightarrow> \<exists>t'. body j t = Inr t' \<and> I (Suc j) t'"
  shows "\<exists>s'. for_loop i n body s = Inr s' \<and> I n s'"
proof -
  have "case for_loop i n body s of Inl e \<Rightarrow> False | Inr s' \<Rightarrow> I n s'"
  proof (rule for_loop_rule[where I = I, OF assms(1,2)])
    fix j t assume "i \<le> j" "j < n" "I j t"
    from step[OF this] show "case body j t of Inl e \<Rightarrow> False | Inr t' \<Rightarrow> I (Suc j) t'"
      by auto
  qed
  then show ?thesis by (cases "for_loop i n body s") auto
qed

lemma for_loop_eq:
  assumes "s = g i" and "i \<le> n"
    and "\<And>j. i \<le> j \<Longrightarrow> j < n \<Longrightarrow> body j (g j) = Inr (g (Suc j))"
  shows "for_loop i n body s = Inr (g n)"
proof -
  have "\<exists>s'. for_loop i n body s = Inr s' \<and> s' = g n"
    by (rule for_loop_total[where I = "\<lambda>j t. t = g j"]) (use assms in auto)
  then show ?thesis by auto
qed

lemma for_loop_snoc:
  "for_loop 0 (Suc n) body s = bnd (for_loop 0 n body s) (body n)"
proof -
  have "i \<le> n \<Longrightarrow> for_loop i (Suc n) body s = bnd (for_loop i n body s) (body n)" for i s
  proof (induction "n - i" arbitrary: i s)
    case 0
    then have "i = n" by simp
    then show ?case
      by (simp add: for_loop_done for_loop_step[of n "Suc n"] bnd_def split: sum.splits)
  next
    case (Suc d)
    then have lt: "i < n" by simp
    have IH: "for_loop (Suc i) (Suc n) body t = bnd (for_loop (Suc i) n body t) (body n)" for t
      using Suc.hyps(2) lt by (intro Suc.hyps(1)) auto
    show ?case
      using lt by (cases "body i s") (simp_all add: for_loop_step IH)
  qed
  then show ?thesis by simp
qed


section \<open>The generator\<close>

lemma c_div_pos: "0 \<le> x \<Longrightarrow> 0 < y \<Longrightarrow> c_div x y = x div y"
  by (cases "x = 0") (simp_all add: c_div_def)

lemma c_div_neg: "x < 0 \<Longrightarrow> 0 < y \<Longrightarrow> c_div x y = - ((- x) div y)"
  by (simp add: c_div_def)

lemma seed_step_decomp:
  fixes seed k r :: int
  assumes k: "- 16807 \<le> k" "k \<le> 16807"
    and r: "- 127773 < r" "r < 127773"
    and sg: "(0 \<le> k \<and> 0 \<le> r) \<or> (k \<le> 0 \<and> r \<le> 0)"
    and kd: "c_div seed 127773 = k" and sd: "seed = k * 127773 + r"
  shows "seed_step seed = Inr ((16807 * seed) mod 2147483647)"
proof -
  define t where "t = 16807 * r - k * 2836"
  have t: "- 2147483647 < t" "t < 2147483647"
    using k r sg unfolding t_def by linarith+
  have m: "(16807 * seed) mod 2147483647 = (if t < 0 then t + 2147483647 else t)"
  proof (cases "t < 0")
    case True
    have "16807 * seed = 2147483647 * (k - 1) + (t + 2147483647)"
      unfolding sd t_def by (simp add: algebra_simps)
    then have "(16807 * seed) mod 2147483647 = (2147483647 * (k - 1) + (t + 2147483647)) mod 2147483647"
      by (rule arg_cong)
    also have "\<dots> = (t + 2147483647) mod 2147483647"
      by (rule mod_mult_self4)
    also have "\<dots> = t + 2147483647"
      using True t by (intro mod_pos_pos_trivial) linarith+
    finally show ?thesis using True by simp
  next
    case False
    have "16807 * seed = 2147483647 * k + t"
      unfolding sd t_def by (simp add: algebra_simps)
    then have "(16807 * seed) mod 2147483647 = (2147483647 * k + t) mod 2147483647"
      by (rule arg_cong)
    also have "\<dots> = t mod 2147483647"
      by (rule mod_mult_self4)
    also have "\<dots> = t"
      using False t by (intro mod_pos_pos_trivial) linarith+
    finally show ?thesis using False by simp
  qed
  have 1: "in_int (k * 127773)" using k unfolding in_int_def by linarith
  have 7: "seed - k * 127773 = r" unfolding sd by linarith
  have 2: "in_int r" using r unfolding in_int_def by linarith
  have 3: "in_int (16807 * r)" using r unfolding in_int_def by linarith
  have 4: "in_int (k * 2836)" using k unfolding in_int_def by linarith
  have 5: "in_int t" using t unfolding in_int_def by linarith
  have 6: "t < 0 \<Longrightarrow> in_int (t + 2147483647)" using t unfolding in_int_def by linarith
  have 8: "16807 * r - k * 2836 = t" by (simp add: t_def)
  show ?thesis
    unfolding seed_step_def kd Let_def
    by (simp add: chk_def 1 2 3 4 5 6 7 8 m i4_huge_def)
qed

lemma seed_step_mod:
  assumes "in_int seed"
  shows "seed_step seed = Inr ((16807 * seed) mod 2147483647)"
proof (cases "0 \<le> seed")
  case True
  define k where "k = seed div 127773"
  define r where "r = seed mod 127773"
  have "seed = k * 127773 + r" by (simp add: k_def r_def)
  moreover have "0 \<le> r" "r < 127773" by (simp_all add: r_def)
  moreover have "0 \<le> k" "k \<le> 16807" using True assms unfolding k_def in_int_def by linarith+
  moreover have "c_div seed 127773 = k" using True by (simp add: c_div_pos k_def)
  ultimately show ?thesis by (intro seed_step_decomp[of k r]) auto
next
  case False
  define k where "k = - ((- seed) div 127773)"
  define r where "r = - ((- seed) mod 127773)"
  have "- seed = (- seed) div 127773 * 127773 + (- seed) mod 127773" by simp
  then have "seed = k * 127773 + r" unfolding k_def r_def by linarith
  moreover have "r \<le> 0" "- 127773 < r" by (simp_all add: r_def)
  moreover have "k \<le> 0" "- 16807 \<le> k" using False assms unfolding k_def in_int_def by linarith+
  moreover have "c_div seed 127773 = k" using False by (simp add: c_div_neg k_def)
  ultimately show ?thesis by (intro seed_step_decomp[of k r]) auto
qed

lemma lehmer_inverse: "(1407677000 * 16807) mod 2147483647 = (1::int)"
  by simp

lemma lehmer_nonzero:
  fixes seed :: int
  assumes "1 \<le> seed" "seed \<le> 2147483646"
  shows "(16807 * seed) mod 2147483647 \<noteq> 0"
proof
  assume "(16807 * seed) mod 2147483647 = 0"
  then have "(1407677000 * ((16807 * seed) mod 2147483647)) mod 2147483647 = 0"
    by simp
  then have "(1407677000 * (16807 * seed)) mod 2147483647 = 0"
    by (simp only: mod_mult_right_eq)
  then have "((1407677000 * 16807) * seed) mod 2147483647 = 0"
    by (simp only: mult.assoc)
  then have "(((1407677000 * 16807) mod 2147483647) * seed) mod 2147483647 = 0"
    by (simp only: mod_mult_left_eq)
  then have "seed mod 2147483647 = 0"
    by (simp only: lehmer_inverse mult_1)
  then show False using assms by simp
qed

text \<open>A seed other than 0 can still lead to the seed 0: \<open>2^31 - 1\<close> does.\<close>

lemma seed_step_huge: "seed_step 2147483647 = Inr 0"
  by (simp add: seed_step_mod in_int_def)

lemma in_int_mod: "in_int (x mod 2147483647)"
proof -
  have "0 \<le> x mod 2147483647" "x mod 2147483647 < 2147483647" by simp_all
  then show ?thesis unfolding in_int_def by linarith
qed

lemma in_int_lcg: "in_int seed \<Longrightarrow> in_int (lcg seed p)"
  by (cases p) (simp_all add: in_int_mod)

lemma lcg_in_range:
  assumes "1 \<le> seed" and "seed \<le> 2147483646"
  shows "1 \<le> lcg seed p \<and> lcg seed p \<le> 2147483646"
proof (induction p)
  case 0
  then show ?case using assms by simp
next
  case (Suc p)
  define s' where "s' = (16807 * lcg seed p) mod 2147483647"
  have "s' \<noteq> 0" unfolding s'_def using Suc by (intro lehmer_nonzero) simp_all
  moreover have "0 \<le> s'" "s' < 2147483647" unfolding s'_def by simp_all
  ultimately have "1 \<le> s' \<and> s' \<le> 2147483646" by linarith
  then show ?case by (simp add: s'_def)
qed

lemma seed_step_lcg: "in_int seed \<Longrightarrow> seed_step (lcg seed p) = Inr (lcg seed (Suc p))"
  by (simp add: seed_step_mod in_int_lcg)

lemma uniform_draw_lcg:
  "in_int seed \<Longrightarrow> uniform_draw a b (lcg seed p) = Inr (lcg seed (Suc p), drawn a b seed p)"
  unfolding uniform_draw_def drawn_def by (simp only: seed_step_lcg bnd_simps)

lemma wr_filled:
  assumes "p < length r"
  shows "wr (map g [0..<p] @ drop p r) p v = Inr (map g [0..<p] @ v # drop (Suc p) r)"
proof -
  have d: "drop p r = r ! p # drop (Suc p) r"
    using assms by (simp add: Cons_nth_drop_Suc)
  have "(map g [0..<p] @ drop p r)[p := v] = map g [0..<p] @ (drop p r)[0 := v]"
    by (simp add: list_update_append)
  also have "\<dots> = map g [0..<p] @ v # drop (Suc p) r"
    by (subst d) simp
  finally show ?thesis using assms by (simp add: wr_def)
qed

lemma fill_row:
  assumes "in_int seed" and "j * m + m \<le> length r"
  shows "for_loop 0 m (\<lambda>i (seed, r).
            bnd (uniform_draw a b seed) (\<lambda>(seed, v).
            bnd (wr r (i + j * m) v) (\<lambda>r. Inr (seed, r))))
          (filled a b seed r (j * m)) = Inr (filled a b seed r (j * m + m))"
proof (rule for_loop_eq[where g = "\<lambda>i. filled a b seed r (j * m + i)"])
  fix i assume i: "i < m"
  have lt: "j * m + i < length r" using i assms(2) by simp
  show "(case filled a b seed r (j * m + i) of (seed, r) \<Rightarrow>
            bnd (uniform_draw a b seed) (\<lambda>(seed, v).
            bnd (wr r (i + j * m) v) (\<lambda>r. Inr (seed, r))))
        = Inr (filled a b seed r (j * m + Suc i))"
    unfolding filled_def
    by (simp add: uniform_draw_lcg[OF assms(1)] add.commute[of i] wr_filled[OF lt])
qed simp_all

lemma r8mat_uniform_ab_filled:
  assumes "seed \<noteq> 0" and "in_int seed" and "m * n \<le> length r"
  shows "r8mat_uniform_ab m n a b seed r = Inr (filled a b seed r (m * n))"
proof -
  let ?row = "\<lambda>j. for_loop 0 m (\<lambda>i (seed, r).
            bnd (uniform_draw a b seed) (\<lambda>(seed, v).
            bnd (wr r (i + j * m) v) (\<lambda>r. Inr (seed, r))))"
  have "for_loop 0 n ?row (seed, r) = Inr (filled a b seed r (n * m))"
  proof (rule for_loop_eq[where g = "\<lambda>j. filled a b seed r (j * m)"])
    fix j assume j: "j < n"
    have "Suc j * m \<le> n * m" using j by (intro mult_le_mono1) simp
    then have "j * m + m \<le> length r" using assms(3) by (simp add: mult.commute)
    from fill_row[OF assms(2) this]
    show "?row j (filled a b seed r (j * m)) = Inr (filled a b seed r (Suc j * m))"
      by (simp add: add.commute)
  qed (simp_all add: filled_def)
  then show ?thesis
    using assms(1) by (simp add: r8mat_uniform_ab_def mult.commute)
qed


lemma seed_step_fault: "seed_step seed = Inl e \<Longrightarrow> e = SignedOverflow"
  unfolding seed_step_def Let_def chk_def bnd_def
  by (auto split: if_splits sum.splits)

lemma uniform_draw_fault: "uniform_draw a b seed = Inl e \<Longrightarrow> e = SignedOverflow"
  unfolding uniform_draw_def bnd_def
  by (auto split: sum.splits dest: seed_step_fault)

lemma wr_fault: "wr xs i v = Inl e \<Longrightarrow> e = OutOfBounds"
  by (auto simp: wr_def split: if_splits)

lemma fill_no_exit:
  "case for_loop 0 n (\<lambda>j.
             for_loop 0 m (\<lambda>i (seed, r).
               bnd (uniform_draw a b seed) (\<lambda>(seed, v).
               bnd (wr r (i + j * m) v) (\<lambda>r. Inr (seed, r))))) s
   of Inl e \<Rightarrow> e = SignedOverflow \<or> e = OutOfBounds | Inr s' \<Rightarrow> True"
proof (rule for_loop_rule[where I = "\<lambda>_ _. True"])
  fix j :: nat and t :: "int \<times> real list"
  show "case for_loop 0 m (\<lambda>i (seed, r).
               bnd (uniform_draw a b seed) (\<lambda>(seed, v).
               bnd (wr r (i + j * m) v) (\<lambda>r. Inr (seed, r)))) t
   of Inl e \<Rightarrow> e = SignedOverflow \<or> e = OutOfBounds | Inr s' \<Rightarrow> True"
  proof (rule for_loop_rule[where I = "\<lambda>_ _. True"])
    fix i :: nat and u :: "int \<times> real list"
    show "case (case u of (seed, r) \<Rightarrow>
               bnd (uniform_draw a b seed) (\<lambda>(seed, v).
               bnd (wr r (i + j * m) v) (\<lambda>r. Inr (seed, r))))
      of Inl e \<Rightarrow> e = SignedOverflow \<or> e = OutOfBounds | Inr s' \<Rightarrow> True"
      by (auto simp: bnd_def split: sum.splits prod.splits dest: uniform_draw_fault wr_fault)
  qed simp_all
qed simp_all

text \<open>
  Claim C4, amended. For every seed in the range of a 32 bit \<open>int\<close>, one draw computes the
  new seed \<open>16807 * seed mod (2^31 - 1)\<close> without leaving the 32 bit range in any
  intermediate result, and returns \<open>a + (b - a) * seed' * 4.656612875E-10\<close>: the factor
  is the decimal constant of the source, not \<open>1 / (2^31 - 1)\<close>.
\<close>

theorem uniform_draw_lehmer:
  assumes "in_int seed"
  shows "uniform_draw a b seed =
    Inr ((16807 * seed) mod (2 ^ 31 - 1),
         a + (b - a) * real_of_int ((16807 * seed) mod (2 ^ 31 - 1)) * (4.656612875 / 10 ^ 10))"
  unfolding uniform_draw_def using seed_step_mod[OF assms] by simp

theorem uniform_draw_lehmer_witness:
  "in_int 123456789 \<and>
   uniform_draw 0 10 123456789 =
    Inr ((16807 * 123456789) mod (2 ^ 31 - 1),
         0 + (10 - 0) * real_of_int ((16807 * 123456789) mod (2 ^ 31 - 1)) * (4.656612875 / 10 ^ 10))"
proof -
  have h: "in_int 123456789" by (simp add: in_int_def)
  show ?thesis using h uniform_draw_lehmer[OF h, of 0 10] by simp
qed

text \<open>
  The claim as stated, with the factor \<open>1 / (2^31 - 1)\<close>, fails for the seed 1 and the
  bounds 0 and 1: the draw returns \<open>16807 * 4.656612875E-10\<close>.
\<close>

theorem uniform_draw_scale_counterexample:
  "uniform_draw 0 1 1 \<noteq>
    Inr ((16807 * 1) mod (2 ^ 31 - 1),
         0 + (1 - 0) * real_of_int ((16807 * 1) mod (2 ^ 31 - 1)) * (1 / (2 ^ 31 - 1)))"
proof -
  have "in_int 1" by (simp add: in_int_def)
  then have "uniform_draw 0 1 1 = Inr (16807, real_of_int 16807 * (4.656612875 / 10 ^ 10))"
    unfolding uniform_draw_def by (simp add: seed_step_mod)
  then show ?thesis by simp
qed

text \<open>
  Claim C8. For every seed from 1 to \<open>2^31 - 2\<close> the new seed of one draw is again in that
  range, so it is never 0; the same holds for the seed a whole call of the generator
  leaves behind.
\<close>

theorem seed_step_in_range:
  assumes "1 \<le> seed" and "seed \<le> 2 ^ 31 - 2"
  shows "(\<exists>s'. seed_step seed = Inr s' \<and> 1 \<le> s' \<and> s' \<le> 2 ^ 31 - 2) \<and>
    (\<forall>m n a b r. m * n \<le> length r \<longrightarrow>
       (\<exists>s' r'. r8mat_uniform_ab m n a b seed r = Inr (s', r') \<and> 1 \<le> s' \<and> s' \<le> 2 ^ 31 - 2))"
proof -
  have r: "1 \<le> seed" "seed \<le> 2147483646" using assms by simp_all
  then have i: "in_int seed" unfolding in_int_def by linarith
  have nz: "seed \<noteq> 0" using r by simp
  have "seed_step seed = Inr (lcg seed 1)"
    using seed_step_lcg[OF i, of 0] by simp
  moreover have "r8mat_uniform_ab m n a b seed x = Inr (lcg seed (m * n), snd (filled a b seed x (m * n)))"
    if "m * n \<le> length x" for m n a b x
    using r8mat_uniform_ab_filled[OF nz i that] by (simp add: filled_def)
  moreover have "1 \<le> lcg seed p \<and> lcg seed p \<le> 2 ^ 31 - 2" for p
    using lcg_in_range[OF r, of p] by simp
  ultimately show ?thesis by blast
qed

theorem seed_step_in_range_witness:
  "((1::int) \<le> 123456789 \<and> (123456789::int) \<le> 2 ^ 31 - 2 \<and>
       3 * 2 \<le> length [0, 0, 0, 0, 0, 0::real]) \<and>
   (\<exists>s'. seed_step 123456789 = Inr s' \<and> 1 \<le> s' \<and> s' \<le> 2 ^ 31 - 2) \<and>
   (\<exists>s' r'. r8mat_uniform_ab 3 2 0 10 123456789 [0, 0, 0, 0, 0, 0] = Inr (s', r')
       \<and> 1 \<le> s' \<and> s' \<le> 2 ^ 31 - 2)"
proof -
  have h: "(1::int) \<le> 123456789" "(123456789::int) \<le> 2 ^ 31 - 2"
    and l: "3 * 2 \<le> length [0, 0, 0, 0, 0, 0::real]"
    by simp_all
  from seed_step_in_range[OF h] h l show ?thesis by blast
qed

text \<open>
  Claim C5. Called with the seed 0 the generator writes its message to \<open>stderr\<close> and exits
  with status 1, whatever the other arguments are, and returns nothing. It exits in no
  other case, and with a seed other than 0 and an array of at least \<open>m * n\<close> slots it
  returns.
\<close>

theorem r8mat_uniform_ab_fatal:
  "r8mat_uniform_ab m n a b 0 r =
     Inl (Exit 1 ['''', ''R8MAT_UNIFORM_AB - Fatal error!'', ''  Input value of SEED = 0.''])
   \<and> ((\<exists>status msg. r8mat_uniform_ab m n a b seed r = Inl (Exit status msg)) \<longrightarrow> seed = 0)
   \<and> (seed \<noteq> 0 \<and> in_int seed \<and> m * n \<le> length r \<longrightarrow>
        (\<exists>res. r8mat_uniform_ab m n a b seed r = Inr res))"
proof (intro conjI impI)
  show "r8mat_uniform_ab m n a b 0 r =
     Inl (Exit 1 ['''', ''R8MAT_UNIFORM_AB - Fatal error!'', ''  Input value of SEED = 0.''])"
    by (simp add: r8mat_uniform_ab_def)
next
  assume ex: "\<exists>status msg. r8mat_uniform_ab m n a b seed r = Inl (Exit status msg)"
  show "seed = 0"
  proof (rule ccontr)
    assume "seed \<noteq> 0"
    with ex fill_no_exit[of n m a b "(seed, r)"] show False
      by (auto simp: r8mat_uniform_ab_def)
  qed
next
  assume "seed \<noteq> 0 \<and> in_int seed \<and> m * n \<le> length r"
  then show "\<exists>res. r8mat_uniform_ab m n a b seed r = Inr res"
    by (simp add: r8mat_uniform_ab_filled)
qed

theorem r8mat_uniform_ab_fatal_witness:
  "r8mat_uniform_ab 3 2 0 10 0 [0, 0, 0, 0, 0, 0] =
     Inl (Exit 1 ['''', ''R8MAT_UNIFORM_AB - Fatal error!'', ''  Input value of SEED = 0.''])
   \<and> (123456789 \<noteq> (0::int) \<and> in_int 123456789 \<and> 3 * 2 \<le> length [0, 0, 0, 0, 0, 0::real])
   \<and> (\<exists>res. r8mat_uniform_ab 3 2 0 10 123456789 [0, 0, 0, 0, 0, 0] = Inr res)"
proof -
  have h: "123456789 \<noteq> (0::int) \<and> in_int 123456789 \<and> 3 * 2 \<le> length [0, 0, 0, 0, 0, 0::real]"
    by (simp add: in_int_def)
  with r8mat_uniform_ab_fatal[of 3 2 0 10 "[0, 0, 0, 0, 0, 0]" 123456789]
  show ?thesis by blast
qed

text \<open>
  Claim C7. Two calls of the generator with the same seed (not 0), bounds and size, on
  arrays of any content, end with the same seed and the same \<open>m * n\<close> values, and slot
  \<open>i + j * m\<close> (row \<open>i\<close> of column \<open>j\<close>) holds the value of draw number \<open>i + j * m\<close>:
  the rows of one column are drawn before the next column.
\<close>

theorem r8mat_uniform_ab_deterministic:
  assumes "seed \<noteq> 0" and "in_int seed" and "m * n \<le> length r1" and "m * n \<le> length r2"
  shows "\<exists>seed' out1 out2.
    r8mat_uniform_ab m n a b seed r1 = Inr (seed', out1) \<and>
    r8mat_uniform_ab m n a b seed r2 = Inr (seed', out2) \<and>
    take (m * n) out1 = take (m * n) out2 \<and>
    (\<forall>j<n. \<forall>i<m. out1 ! (i + j * m) = drawn a b seed (i + j * m))"
proof -
  let ?out = "\<lambda>r. map (drawn a b seed) [0..<m * n] @ drop (m * n) r"
  have 1: "r8mat_uniform_ab m n a b seed r1 = Inr (lcg seed (m * n), ?out r1)"
    using r8mat_uniform_ab_filled[OF assms(1,2,3)] by (simp add: filled_def)
  have 2: "r8mat_uniform_ab m n a b seed r2 = Inr (lcg seed (m * n), ?out r2)"
    using r8mat_uniform_ab_filled[OF assms(1,2,4)] by (simp add: filled_def)
  have 3: "take (m * n) (?out r1) = take (m * n) (?out r2)" by simp
  have 4: "(?out r1) ! (i + j * m) = drawn a b seed (i + j * m)" if "j < n" "i < m" for i j
  proof -
    have "Suc j * m \<le> n * m" using that(1) by (intro mult_le_mono1) simp
    then have "i + j * m < m * n" using that(2) by (simp add: mult.commute)
    then show ?thesis by (simp add: nth_append)
  qed
  show ?thesis using 1 2 3 4 by blast
qed

theorem r8mat_uniform_ab_deterministic_witness:
  "(1 \<noteq> (0::int) \<and> in_int 1 \<and> 2 * 2 \<le> length [0, 0, 0, 0::real]
      \<and> 2 * 2 \<le> length [1, 2, 3, 4, 5::real])
   \<and> (\<exists>seed' out1 out2.
    r8mat_uniform_ab 2 2 0 10 1 [0, 0, 0, 0] = Inr (seed', out1) \<and>
    r8mat_uniform_ab 2 2 0 10 1 [1, 2, 3, 4, 5] = Inr (seed', out2) \<and>
    take (2 * 2) out1 = take (2 * 2) out2 \<and>
    (\<forall>j<2. \<forall>i<2. out1 ! (i + j * 2) = drawn 0 10 1 (i + j * 2)))"
proof -
  have h: "1 \<noteq> (0::int)" "in_int 1" "2 * 2 \<le> length [0, 0, 0, 0::real]"
    "2 * 2 \<le> length [1, 2, 3, 4, 5::real]"
    by (simp_all add: in_int_def)
  from r8mat_uniform_ab_deterministic[OF h, of 0 10] h show ?thesis by blast
qed

section \<open>The integrator\<close>

lemma map_upt_step:
  "p < n \<Longrightarrow> (map (\<lambda>s. if s < p then g s else h s) [0..<n])[p := g p]
     = map (\<lambda>s. if s < Suc p then g s else h s) [0..<n]"
  by (auto intro!: nth_equalityI simp: nth_list_update less_Suc_eq)

lemma update_slot_eq:
  assumes "s < length pos" "s < length vel" "s < length acc" "s < length f"
  shows "update_slot f rmass dt s (pos, vel, acc) =
    Inr (pos[s := pos ! s + vel ! s * dt + 0.5 * acc ! s * dt * dt],
         vel[s := vel ! s + 0.5 * dt * (f ! s * rmass + acc ! s)],
         acc[s := f ! s * rmass])"
  using assms by (simp add: update_slot_def rd_def wr_def)

lemma update_slot_advanced:
  assumes "p < length pos" "p < length vel" "p < length acc" "p < length f"
  shows "update_slot f (1 / mass) dt p (advanced mass dt f pos vel acc p)
     = Inr (advanced mass dt f pos vel acc (Suc p))"
proof -
  define P where "P = (\<lambda>s. pos ! s + vel ! s * dt + 0.5 * acc ! s * dt\<^sup>2)"
  define V where "V = (\<lambda>s. vel ! s + 0.5 * dt * (f ! s / mass + acc ! s))"
  define A where "A = (\<lambda>s. f ! s / mass)"
  define pos' where "pos' = map (\<lambda>s. if s < p then P s else pos ! s) [0..<length pos]"
  define vel' where "vel' = map (\<lambda>s. if s < p then V s else vel ! s) [0..<length vel]"
  define acc' where "acc' = map (\<lambda>s. if s < p then A s else acc ! s) [0..<length acc]"
  have adv: "advanced mass dt f pos vel acc p = (pos', vel', acc')"
    by (simp add: advanced_def P_def V_def A_def pos'_def vel'_def acc'_def)
  have n: "pos' ! p = pos ! p" "vel' ! p = vel ! p" "acc' ! p = acc ! p"
    using assms by (simp_all add: pos'_def vel'_def acc'_def)
  have l: "p < length pos'" "p < length vel'" "p < length acc'"
    using assms by (simp_all add: pos'_def vel'_def acc'_def)
  have "update_slot f (1 / mass) dt p (pos', vel', acc')
      = Inr (pos'[p := pos' ! p + vel' ! p * dt + 0.5 * acc' ! p * dt * dt],
         vel'[p := vel' ! p + 0.5 * dt * (f ! p * (1 / mass) + acc' ! p)],
         acc'[p := f ! p * (1 / mass)])"
    using l assms(4) by (rule update_slot_eq)
  also have "pos' ! p + vel' ! p * dt + 0.5 * acc' ! p * dt * dt = P p"
    by (simp add: n P_def power2_eq_square)
  also have "vel' ! p + 0.5 * dt * (f ! p * (1 / mass) + acc' ! p) = V p"
    by (simp add: n V_def)
  also have "f ! p * (1 / mass) = A p"
    by (simp add: A_def)
  also have "pos'[p := P p] = map (\<lambda>s. if s < Suc p then P s else pos ! s) [0..<length pos]"
    unfolding pos'_def using assms(1) by (rule map_upt_step)
  also have "vel'[p := V p] = map (\<lambda>s. if s < Suc p then V s else vel ! s) [0..<length vel]"
    unfolding vel'_def using assms(2) by (rule map_upt_step)
  also have "acc'[p := A p] = map (\<lambda>s. if s < Suc p then A s else acc ! s) [0..<length acc]"
    unfolding acc'_def using assms(3) by (rule map_upt_step)
  finally show ?thesis
    unfolding adv by (simp add: advanced_def P_def V_def A_def)
qed

lemma advanced_0: "advanced mass dt f pos vel acc 0 = (pos, vel, acc)"
  by (simp add: advanced_def map_nth)

lemma update_advanced:
  assumes "mass \<noteq> 0"
    and "np * nd \<le> length pos" "np * nd \<le> length vel" "np * nd \<le> length acc"
      "np * nd \<le> length f"
  shows "update np nd pos vel f acc mass dt = Inr (advanced mass dt f pos vel acc (np * nd))"
proof -
  let ?g = "advanced mass dt f pos vel acc"
  have row: "for_loop 0 nd (\<lambda>i. update_slot f (1 / mass) dt (i + j * nd)) (?g (j * nd))
      = Inr (?g (Suc j * nd))" if "j < np" for j
  proof -
    have "Suc j * nd \<le> np * nd" using that by (intro mult_le_mono1) simp
    then have le: "j * nd + nd \<le> np * nd" by simp
    have "for_loop 0 nd (\<lambda>i. update_slot f (1 / mass) dt (i + j * nd)) (?g (j * nd))
      = Inr (?g (j * nd + nd))"
    proof (rule for_loop_eq[where g = "\<lambda>i. ?g (j * nd + i)"])
      fix i assume "i < nd"
      then have "j * nd + i < np * nd" using le by simp
      then show "update_slot f (1 / mass) dt (i + j * nd) (?g (j * nd + i))
          = Inr (?g (j * nd + Suc i))"
        using assms(2-5) by (simp add: add.commute[of i] update_slot_advanced)
    qed simp_all
    then show ?thesis by (simp add: add.commute)
  qed
  have "for_loop 0 np (\<lambda>j. for_loop 0 nd (\<lambda>i. update_slot f (1 / mass) dt (i + j * nd)))
      (pos, vel, acc) = Inr (?g (np * nd))"
    by (rule for_loop_eq[where g = "\<lambda>j. ?g (j * nd)"]) (simp_all add: advanced_0 row)
  then show ?thesis using assms(1) by (simp add: update_def fdiv_def)
qed

text \<open>
  Claim C2. With a mass other than 0 and four arrays of \<open>np * nd\<close> slots, \<open>update\<close> returns,
  and in every slot \<open>i + j * nd\<close> the new position is the old one plus
  \<open>velocity * dt + 0.5 * acceleration * dt\<^sup>2\<close>, the new velocity is the old one plus
  \<open>0.5 * dt * (force / mass + acceleration)\<close>, and the new acceleration is \<open>force / mass\<close>,
  where velocity and acceleration on the right are the old values of that same slot: the
  acceleration is overwritten last, and no other slot enters. (The source multiplies by
  \<open>rmass = 1.0 / mass\<close>, which is the division by \<open>mass\<close> in exact arithmetic.)
\<close>

theorem update_velocity_verlet:
  assumes "mass \<noteq> 0"
    and "length pos = np * nd" and "length vel = np * nd" and "length acc = np * nd"
    and "length f = np * nd"
  shows "\<exists>pos' vel' acc'.
    update np nd pos vel f acc mass dt = Inr (pos', vel', acc') \<and>
    length pos' = np * nd \<and> length vel' = np * nd \<and> length acc' = np * nd \<and>
    (\<forall>j<np. \<forall>i<nd.
       pos' ! (i + j * nd)
         = pos ! (i + j * nd) + vel ! (i + j * nd) * dt + 0.5 * acc ! (i + j * nd) * dt\<^sup>2 \<and>
       vel' ! (i + j * nd)
         = vel ! (i + j * nd) + 0.5 * dt * (f ! (i + j * nd) / mass + acc ! (i + j * nd)) \<and>
       acc' ! (i + j * nd) = f ! (i + j * nd) / mass)"
proof -
  have u: "update np nd pos vel f acc mass dt = Inr (advanced mass dt f pos vel acc (np * nd))"
    using assms by (intro update_advanced) simp_all
  have "i + j * nd < np * nd" if "j < np" "i < nd" for i j
  proof -
    have "Suc j * nd \<le> np * nd" using that(1) by (intro mult_le_mono1) simp
    then show ?thesis using that(2) by simp
  qed
  then show ?thesis
    unfolding u advanced_def using assms(2-5) by simp
qed

theorem update_velocity_verlet_witness:
  "((1::real) \<noteq> 0 \<and> length [0, 2::real] = 2 * 1 \<and> length [1, 0::real] = 2 * 1
      \<and> length [4, 6::real] = 2 * 1 \<and> length [8, 10::real] = 2 * 1) \<and>
   update 2 1 [0, 2] [1, 0] [8, 10] [4, 6] 1 (1 / 2) = Inr ([1, 11 / 4], [4, 4], [8, 10])"
proof -
  have h: "(1::real) \<noteq> 0" "length [0, 2::real] = 2 * 1" "length [1, 0::real] = 2 * 1"
    "length [4, 6::real] = 2 * 1" "length [8, 10::real] = 2 * 1"
    by simp_all
  from update_velocity_verlet[OF h, of "1 / 2"]
  obtain pos' vel' acc' where
    u: "update 2 1 [0, 2] [1, 0] [8, 10] [4, 6] 1 (1 / 2) = Inr (pos', vel', acc')"
    and l: "length pos' = 2 * 1" "length vel' = 2 * 1" "length acc' = 2 * 1"
    and v: "\<forall>j<2. \<forall>i<1.
       pos' ! (i + j * 1)
         = [0, 2] ! (i + j * 1) + [1, 0] ! (i + j * 1) * (1 / 2) + 0.5 * [4, 6] ! (i + j * 1) * (1 / 2)\<^sup>2 \<and>
       vel' ! (i + j * 1)
         = [1, 0] ! (i + j * 1) + 0.5 * (1 / 2) * ([8, 10] ! (i + j * 1) / 1 + [4, 6] ! (i + j * 1)) \<and>
       acc' ! (i + j * 1) = [8, 10] ! (i + j * 1) / 1"
    by blast
  from v have "pos' ! 0 = 1" "pos' ! 1 = 11 / 4" "vel' ! 0 = 4" "vel' ! 1 = 4"
    "acc' ! 0 = 8" "acc' ! 1 = 10"
    by (simp_all add: power2_eq_square)
  with l have "pos' = [1, 11 / 4]" "vel' = [4, 4]" "acc' = [8, 10]"
    by (auto simp: list_eq_iff_nth_eq less_Suc_eq numeral_2_eq_2)
  with u h show ?thesis by simp
qed

section \<open>The evaluator\<close>

lemma rd_fault: "rd xs i = Inl e \<Longrightarrow> e = OutOfBounds"
  by (auto simp: rd_def split: if_splits)

lemma rd_ok: "i < length xs \<Longrightarrow> rd xs i = Inr (xs ! i)"
  by (simp add: rd_def)

lemma wr_ok: "i < length xs \<Longrightarrow> wr xs i v = Inr (xs[i := v])"
  by (simp add: wr_def)

lemma block_le: "k < np \<Longrightarrow> k * nd + nd \<le> np * (nd::nat)"
proof -
  assume "k < np"
  then have "Suc k * nd \<le> np * nd" by (intro mult_le_mono1) simp
  then show ?thesis by simp
qed

lemma dist_eq:
  assumes "nd \<le> length r1" "nd \<le> length r2" "nd \<le> length dr"
  shows "dist nd r1 r2 dr =
    Inr (sqrt (\<Sum>i\<leftarrow>[0..<nd]. (r1 ! i - r2 ! i)\<^sup>2),
         map (\<lambda>i. r1 ! i - r2 ! i) [0..<nd] @ drop nd dr)"
proof -
  let ?g = "\<lambda>i. ((\<Sum>i\<leftarrow>[0..<i]. (r1 ! i - r2 ! i)\<^sup>2),
         map (\<lambda>i. r1 ! i - r2 ! i) [0..<i] @ drop i dr)"
  let ?body = "\<lambda>i (d, dr).
            bnd (rd r1 i) (\<lambda>x1.
            bnd (rd r2 i) (\<lambda>x2.
            bnd (wr dr i (x1 - x2)) (\<lambda>dr.
            bnd (rd dr i) (\<lambda>x. Inr (d + x * x, dr)))))"
  have "for_loop 0 nd ?body (0, dr) = Inr (?g nd)"
  proof (rule for_loop_eq[where g = ?g])
    fix i assume i: "i < nd"
    then have l: "i < length r1" "i < length r2" "i < length dr" using assms by simp_all
    have "rd (map (\<lambda>i. r1 ! i - r2 ! i) [0..<i] @ (r1 ! i - r2 ! i) # drop (Suc i) dr) i
        = Inr (r1 ! i - r2 ! i)"
      by (simp add: rd_def nth_append)
    then show "?body i (?g i) = Inr (?g (Suc i))"
      by (simp add: rd_ok l wr_filled[OF l(3)] power2_eq_square)
  qed simp_all
  then show ?thesis by (simp add: dist_def)
qed

lemma dist_fault: "dist nd r1 r2 dr = Inl e \<Longrightarrow> e = OutOfBounds"
proof -
  let ?body = "\<lambda>i (d, dr).
            bnd (rd r1 i) (\<lambda>x1.
            bnd (rd r2 i) (\<lambda>x2.
            bnd (wr dr i (x1 - x2)) (\<lambda>dr.
            bnd (rd dr i) (\<lambda>x. Inr (d + x * x, dr)))))"
  have "case for_loop 0 nd ?body (0, dr) of Inl e \<Rightarrow> e = OutOfBounds | Inr s' \<Rightarrow> True"
    by (rule for_loop_rule[where I = "\<lambda>_ _. True"])
      (auto simp: bnd_def split: sum.splits prod.splits dest: rd_fault wr_fault)
  moreover assume "dist nd r1 r2 dr = Inl e"
  ultimately show ?thesis
    by (auto simp: dist_def bnd_def split: sum.splits)
qed

lemma dist_oob:
  assumes "length dr < nd"
  shows "dist nd r1 r2 dr = Inl OutOfBounds"
proof -
  let ?body = "\<lambda>i (d, dr).
            bnd (rd r1 i) (\<lambda>x1.
            bnd (rd r2 i) (\<lambda>x2.
            bnd (wr dr i (x1 - x2)) (\<lambda>dr.
            bnd (rd dr i) (\<lambda>x. Inr (d + x * x, dr)))))"
  have "case for_loop 0 nd ?body (0, dr) of Inl e \<Rightarrow> e = OutOfBounds
      | Inr s' \<Rightarrow> nd \<le> length dr \<and> length (snd s') = length dr"
    by (rule for_loop_rule[where I = "\<lambda>i s. i \<le> length dr \<and> length (snd s) = length dr"])
      (auto simp: bnd_def rd_def wr_def split: sum.splits prod.splits if_splits)
  with assms show ?thesis
    by (auto simp: dist_def bnd_def split: sum.splits)
qed


lemma length_block_upd [simp]: "length (block_upd nd k i G F) = length F"
  by (simp add: block_upd_def)

lemma nth_block_upd:
  "s < length F \<Longrightarrow> block_upd nd k i G F ! s = (if k * nd \<le> s \<and> s < k * nd + i then G s else F ! s)"
  by (simp add: block_upd_def)

lemma block_upd_0 [simp]: "block_upd nd k 0 G F = F"
  by (auto intro!: nth_equalityI simp: nth_block_upd)

lemma block_upd_step:
  assumes "i + k * nd < length F"
  shows "(block_upd nd k i G F)[i + k * nd := G (i + k * nd)] = block_upd nd k (Suc i) G F"
  using assms by (auto intro!: nth_equalityI simp: nth_list_update nth_block_upd)

lemma block_upd_cong:
  assumes "\<And>s. k * nd \<le> s \<Longrightarrow> s < k * nd + i \<Longrightarrow> s < length F \<Longrightarrow> G s = G' s"
  shows "block_upd nd k i G F = block_upd nd k i G' F"
  using assms by (auto intro!: nth_equalityI simp: nth_block_upd)

lemma zero_block:
  assumes "k * nd + nd \<le> length f"
  shows "for_loop 0 nd (\<lambda>i f. wr f (i + k * nd) 0) f = Inr (block_upd nd k nd (\<lambda>_. 0) f)"
proof (rule for_loop_eq[where g = "\<lambda>i. block_upd nd k i (\<lambda>_. 0) f"])
  fix i assume "i < nd"
  then have l: "i + k * nd < length f" using assms by simp
  show "wr (block_upd nd k i (\<lambda>_. 0) f) (i + k * nd) 0 = Inr (block_upd nd k (Suc i) (\<lambda>_. 0) f)"
    using l block_upd_step[OF l, of "\<lambda>_. 0"] by (simp add: wr_def)
qed simp_all

lemma force_block:
  assumes "d \<noteq> 0" and "nd \<le> length rij" and "k * nd + nd \<le> length F"
  shows "for_loop 0 nd (\<lambda>i f.
            bnd (rd f (i + k * nd)) (\<lambda>fk.
            bnd (rd rij i) (\<lambda>x.
            bnd (fdiv (x * c) d) (\<lambda>q.
            wr f (i + k * nd) (fk - q))))) F
    = Inr (block_upd nd k nd (\<lambda>s. F ! s - rij ! (s - k * nd) * c / d) F)"
proof (rule for_loop_eq[where g = "\<lambda>i. block_upd nd k i (\<lambda>s. F ! s - rij ! (s - k * nd) * c / d) F"])
  fix i assume i: "i < nd"
  let ?G = "\<lambda>s. F ! s - rij ! (s - k * nd) * c / d"
  have l: "i + k * nd < length F" using i assms(3) by simp
  have r: "i < length rij" using i assms(2) by simp
  have n: "block_upd nd k i ?G F ! (i + k * nd) = F ! (i + k * nd)"
    using l by (simp add: nth_block_upd)
  show "bnd (rd (block_upd nd k i ?G F) (i + k * nd)) (\<lambda>fk.
            bnd (rd rij i) (\<lambda>x.
            bnd (fdiv (x * c) d) (\<lambda>q.
            wr (block_upd nd k i ?G F) (i + k * nd) (fk - q))))
      = Inr (block_upd nd k (Suc i) ?G F)"
    using l r assms(1) block_upd_step[OF l, of ?G]
    by (simp add: rd_def wr_def fdiv_def n)
qed simp_all

lemma force_block_div0:
  assumes "0 < nd" and "nd \<le> length rij" and "k * nd + nd \<le> length F"
  shows "for_loop 0 nd (\<lambda>i f.
            bnd (rd f (i + k * nd)) (\<lambda>fk.
            bnd (rd rij i) (\<lambda>x.
            bnd (fdiv (x * c) 0) (\<lambda>q.
            wr f (i + k * nd) (fk - q))))) F
    = Inl DivisionByZero"
proof -
  have "k * nd < length F" "rij \<noteq> []" using assms by auto
  then show ?thesis
    using assms(1) by (simp add: for_loop_step rd_def fdiv_def)
qed

lemma nth_drop_block:
  "k * nd + nd \<le> length pos \<Longrightarrow> drop (k * nd) pos ! i = pos ! (i + k * nd)"
  by (simp add: add.commute)

lemma dist_block:
  assumes "k * nd + nd \<le> length pos" and "j * nd + nd \<le> length pos" and "nd \<le> length rij"
  shows "dist nd (drop (k * nd) pos) (drop (j * nd) pos) rij =
    Inr (distance nd pos k j, map (displacement nd pos k j) [0..<nd] @ drop nd rij)"
proof -
  have "dist nd (drop (k * nd) pos) (drop (j * nd) pos) rij =
    Inr (sqrt (\<Sum>i\<leftarrow>[0..<nd]. (drop (k * nd) pos ! i - drop (j * nd) pos ! i)\<^sup>2),
         map (\<lambda>i. drop (k * nd) pos ! i - drop (j * nd) pos ! i) [0..<nd] @ drop nd rij)"
    using assms by (intro dist_eq) simp_all
  then show ?thesis
    unfolding distance_def displacement_def
    by (simp only: nth_drop_block[OF assms(1)] nth_drop_block[OF assms(2)])
qed

lemma pair_step_self: "pair_step nd pos k k (f, rij, pe) = Inr (f, rij, pe)"
  by (simp add: pair_step_def)

lemma clamp_eq: "(if d < PI2 then d else PI2) = clamped d"
  by (simp add: clamped_def min_def)

lemma pair_step_ok:
  assumes "k \<noteq> j" and "k * nd + nd \<le> length pos" and "j * nd + nd \<le> length pos"
    and "nd \<le> length rij" and "k * nd + nd \<le> length f"
    and "distance nd pos k j \<noteq> 0"
  shows "pair_step nd pos k j (f, rij, pe) =
    Inr (block_upd nd k nd (\<lambda>s. f ! s - pair_force nd pos k j (s - k * nd)) f,
         map (displacement nd pos k j) [0..<nd] @ drop nd rij,
         pe + pair_potential nd pos k j)"
proof -
  let ?rij = "map (displacement nd pos k j) [0..<nd] @ drop nd rij"
  let ?d = "distance nd pos k j"
  have l: "nd \<le> length ?rij" using assms(4) by simp
  have "block_upd nd k nd (\<lambda>s. f ! s - ?rij ! (s - k * nd) * sin (2 * clamped ?d) / ?d) f
      = block_upd nd k nd (\<lambda>s. f ! s - pair_force nd pos k j (s - k * nd)) f"
    by (rule block_upd_cong) (auto simp: pair_force_def nth_append)
  then show ?thesis
    unfolding pair_step_def
    using assms(1)
    by (simp add: dist_block[OF assms(2,3,4)] Let_def clamp_eq
        force_block[OF assms(6) l assms(5)] pair_potential_def)
qed

lemma pair_step_nd0:
  assumes "k \<noteq> j"
  shows "pair_step 0 pos k j (f, rij, pe) = Inr (f, rij, pe + pair_potential 0 pos k j)"
  using assms
  by (simp add: pair_step_def dist_def for_loop_done Let_def clamp_eq pair_potential_def
      distance_def)

lemma pair_step_div0:
  assumes "k \<noteq> j" and "k * nd + nd \<le> length pos" and "j * nd + nd \<le> length pos"
    and "nd \<le> length rij" and "k * nd + nd \<le> length f"
    and "0 < nd" and "distance nd pos k j = 0"
  shows "pair_step nd pos k j (f, rij, pe) = Inl DivisionByZero"
proof -
  let ?rij = "map (displacement nd pos k j) [0..<nd] @ drop nd rij"
  have l: "nd \<le> length ?rij" using assms(4) by simp
  show ?thesis
    unfolding pair_step_def
    using assms(1)
    by (simp add: dist_block[OF assms(2,3,4)] Let_def assms(7)
        force_block_div0[OF assms(6) l assms(5)])
qed


lemma others_Suc: "others (Suc j) k = (if j = k then others j k else others j k @ [j])"
  by (simp add: others_def)

lemma others_0 [simp]: "others 0 k = []"
  by (simp add: others_def)

lemma set_others: "set (others n k) = {j. j < n \<and> j \<noteq> k}"
  by (auto simp: others_def)

lemma force_ref_Suc:
  "force_ref nd (Suc j) pos k i =
     (if j = k then force_ref nd j pos k i else force_ref nd j pos k i - pair_force nd pos k j i)"
  by (simp add: force_ref_def others_Suc)

lemma force_ref_0 [simp]: "force_ref nd 0 pos k i = 0"
  by (simp add: force_ref_def)

lemma kinetic_block:
  assumes "k * nd + nd \<le> length vel"
  shows "for_loop 0 nd (\<lambda>i ki. bnd (rd vel (i + k * nd)) (\<lambda>v. Inr (ki + v * v))) ki
    = Inr (ki + (\<Sum>i\<leftarrow>[0..<nd]. (vel ! (i + k * nd))\<^sup>2))"
proof (rule for_loop_eq[where g = "\<lambda>i. ki + (\<Sum>i\<leftarrow>[0..<i]. (vel ! (i + k * nd))\<^sup>2)"])
  fix i assume "i < nd"
  then have "i + k * nd < length vel" using assms by simp
  then show "bnd (rd vel (i + k * nd))
      (\<lambda>v. Inr (ki + (\<Sum>i\<leftarrow>[0..<i]. (vel ! (i + k * nd))\<^sup>2) + v * v))
    = Inr (ki + (\<Sum>i\<leftarrow>[0..<Suc i]. (vel ! (i + k * nd))\<^sup>2))"
    by (simp add: rd_def power2_eq_square)
qed simp_all

lemma pairs_loop:
  assumes k: "k < np" and pos: "np * nd \<le> length pos" and rij: "nd \<le> length rij"
    and F: "k * nd + nd \<le> length F"
  shows "case for_loop 0 np (pair_step nd pos k) (block_upd nd k nd (\<lambda>_. 0) F, rij, pe) of
      Inl e \<Rightarrow> e = DivisionByZero \<and> 0 < nd \<and> (\<exists>j<np. j \<noteq> k \<and> distance nd pos k j = 0)
    | Inr (f', rij', pe') \<Rightarrow>
        f' = block_upd nd k nd (\<lambda>s. force_ref nd np pos k (s - k * nd)) F \<and>
        length rij' = length rij \<and>
        pe' = pe + (\<Sum>j\<leftarrow>others np k. pair_potential nd pos k j) \<and>
        (0 < nd \<longrightarrow> (\<forall>j<np. j \<noteq> k \<longrightarrow> distance nd pos k j \<noteq> 0))"
proof -
  let ?F = "\<lambda>j. block_upd nd k nd (\<lambda>s. force_ref nd j pos k (s - k * nd)) F"
  let ?I = "\<lambda>j (f', rij' :: real list, pe').
        f' = ?F j \<and> length rij' = length rij \<and>
        pe' = pe + (\<Sum>j\<leftarrow>others j k. pair_potential nd pos k j) \<and>
        (0 < nd \<longrightarrow> (\<forall>j'<j. j' \<noteq> k \<longrightarrow> distance nd pos k j' \<noteq> 0))"
  let ?Q = "\<lambda>e. e = DivisionByZero \<and> 0 < nd \<and> (\<exists>j<np. j \<noteq> k \<and> distance nd pos k j = 0)"
  have kpos: "k * nd + nd \<le> length pos" using block_le[OF k, of nd] pos by simp
  have "case for_loop 0 np (pair_step nd pos k) (block_upd nd k nd (\<lambda>_. 0) F, rij, pe) of
      Inl e \<Rightarrow> ?Q e | Inr s' \<Rightarrow> ?I np s'"
  proof (rule for_loop_rule[where I = ?I])
    show "?I 0 (block_upd nd k nd (\<lambda>_. 0) F, rij, pe)" by simp
  next
    fix j and t :: "real list \<times> real list \<times> real"
    assume j: "j < np" and t: "?I j t"
    obtain f' rij' pe' where t_eq: "t = (f', rij', pe')" by (cases t) auto
    from t have f': "f' = ?F j" and lr: "length rij' = length rij"
      and pe': "pe' = pe + (\<Sum>j\<leftarrow>others j k. pair_potential nd pos k j)"
      and nc: "0 < nd \<longrightarrow> (\<forall>j'<j. j' \<noteq> k \<longrightarrow> distance nd pos k j' \<noteq> 0)"
      by (simp_all add: t_eq)
    have jpos: "j * nd + nd \<le> length pos" using block_le[OF j, of nd] pos by simp
    have lf: "k * nd + nd \<le> length f'" using F by (simp add: f')
    have lr': "nd \<le> length rij'" using rij lr by simp
    consider (self) "j = k" | (zero) "j \<noteq> k" "nd = 0"
      | (div0) "j \<noteq> k" "0 < nd" "distance nd pos k j = 0"
      | (ok) "j \<noteq> k" "0 < nd" "distance nd pos k j \<noteq> 0"
      by fastforce
    then show "case pair_step nd pos k j t of Inl e \<Rightarrow> ?Q e | Inr t' \<Rightarrow> ?I (Suc j) t'"
    proof cases
      case self
      have "\<forall>j'<Suc k. j' \<noteq> k \<longrightarrow> j' < k" by auto
      then show ?thesis
        using nc by (simp add: t_eq self pair_step_self f' lr pe' force_ref_Suc others_Suc)
    next
      case zero
      then have "k \<noteq> j" by simp
      then show ?thesis
        using zero(1)
        by (simp add: t_eq zero(2) pair_step_nd0 f' lr pe' others_Suc)
    next
      case div0
      then have "k \<noteq> j" by simp
      from pair_step_div0[OF this kpos jpos lr' lf div0(2,3)] j div0
      show ?thesis by (auto simp: t_eq)
    next
      case ok
      then have kj: "k \<noteq> j" by simp
      have "block_upd nd k nd (\<lambda>s. f' ! s - pair_force nd pos k j (s - k * nd)) f' = ?F (Suc j)"
        unfolding f' using ok(1)
        by (auto intro!: nth_equalityI simp: nth_block_upd force_ref_Suc)
      moreover have "\<forall>j'<Suc j. j' \<noteq> k \<longrightarrow> distance nd pos k j' \<noteq> 0"
        using nc ok by (auto simp: less_Suc_eq)
      ultimately show ?thesis
        using ok(1) lr rij
        by (simp add: t_eq pair_step_ok[OF kj kpos jpos lr' lf ok(3)] pe' others_Suc)
    qed
  qed simp
  then show ?thesis by (auto split: sum.splits)
qed


lemma particle_step_spec:
  assumes k: "k < np" and pos: "np * nd \<le> length pos" and vel: "np * nd \<le> length vel"
    and rij: "nd \<le> length rij" and F: "np * nd \<le> length F"
  shows "case particle_step np nd pos vel k (F, rij, pe, ki) of
      Inl e \<Rightarrow> e = DivisionByZero \<and> 0 < nd \<and> (\<exists>j<np. j \<noteq> k \<and> distance nd pos k j = 0)
    | Inr (f', rij', pe', ki') \<Rightarrow>
        f' = block_upd nd k nd (\<lambda>s. force_ref nd np pos k (s - k * nd)) F \<and>
        length rij' = length rij \<and>
        pe' = pe + (\<Sum>j\<leftarrow>others np k. pair_potential nd pos k j) \<and>
        ki' = ki + (\<Sum>i\<leftarrow>[0..<nd]. (vel ! (i + k * nd))\<^sup>2) \<and>
        (0 < nd \<longrightarrow> (\<forall>j<np. j \<noteq> k \<longrightarrow> distance nd pos k j \<noteq> 0))"
proof -
  have kF: "k * nd + nd \<le> length F" using block_le[OF k, of nd] F by simp
  have kv: "k * nd + nd \<le> length vel" using block_le[OF k, of nd] vel by simp
  from pairs_loop[OF k pos rij kF, of pe]
  show ?thesis
    unfolding particle_step_def
    by (auto simp: zero_block[OF kF] kinetic_block[OF kv] split: sum.splits)
qed

lemma block_div_mod:
  fixes s k nd :: nat
  assumes "k * nd \<le> s" and "s < k * nd + nd"
  shows "s div nd = k \<and> s mod nd = s - k * nd"
proof -
  define r where "r = s - k * nd"
  have s: "s = r + k * nd" and r: "r < nd" using assms by (simp_all add: r_def)
  have "(r + k * nd) div nd = k" "(r + k * nd) mod nd = r" using r by simp_all
  then show ?thesis unfolding r_def[symmetric] s[symmetric] by simp
qed

lemma forces_upto_0 [simp]: "forces_upto nd np pos f 0 = f"
  by (auto intro!: nth_equalityI simp: forces_upto_def)

lemma length_forces_upto [simp]: "length (forces_upto nd np pos f k) = length f"
  by (simp add: forces_upto_def)

lemma forces_upto_Suc:
  "block_upd nd k nd (\<lambda>s. force_ref nd np pos k (s - k * nd)) (forces_upto nd np pos f k)
     = forces_upto nd np pos f (Suc k)"
proof (rule nth_equalityI)
  fix s assume "s < length (block_upd nd k nd (\<lambda>s. force_ref nd np pos k (s - k * nd))
      (forces_upto nd np pos f k))"
  then have s: "s < length f" by simp
  consider "s < k * nd" | "k * nd \<le> s" "s < k * nd + nd" | "k * nd + nd \<le> s"
    by linarith
  then show "block_upd nd k nd (\<lambda>s. force_ref nd np pos k (s - k * nd))
      (forces_upto nd np pos f k) ! s = forces_upto nd np pos f (Suc k) ! s"
  proof cases
    case 1
    then show ?thesis using s by (simp add: nth_block_upd forces_upto_def)
  next
    case 2
    then show ?thesis
      using s block_div_mod[OF 2] by (simp add: nth_block_upd forces_upto_def)
  next
    case 3
    then show ?thesis using s by (simp add: nth_block_upd forces_upto_def)
  qed
qed simp

lemma coincident_iff:
  "coincident nd np pos \<longleftrightarrow>
     0 < nd \<and> (\<exists>k<np. \<exists>j<np. j \<noteq> k \<and> distance nd pos k j = 0)"
  by (auto simp: coincident_def set_others)

lemma compute_evaluate_ref:
  assumes rij: "nd \<le> length rij" and pos: "length pos = np * nd"
    and vel: "length vel = np * nd" and f: "length f = np * nd"
  shows "compute np nd pos vel mass f rij = evaluate_ref np nd pos vel mass"
proof -
  let ?I = "\<lambda>k (f', rij' :: real list, pe', ki').
        f' = forces_upto nd np pos f k \<and> length rij' = length rij \<and>
        pe' = (\<Sum>k\<leftarrow>[0..<k]. \<Sum>j\<leftarrow>others np k. pair_potential nd pos k j) \<and>
        ki' = (\<Sum>k\<leftarrow>[0..<k]. \<Sum>i\<leftarrow>[0..<nd]. (vel ! (i + k * nd))\<^sup>2) \<and>
        (0 < nd \<longrightarrow> (\<forall>k'<k. \<forall>j<np. j \<noteq> k' \<longrightarrow> distance nd pos k' j \<noteq> 0))"
  let ?Q = "\<lambda>e. e = DivisionByZero \<and> coincident nd np pos"
  have loop: "case for_loop 0 np (particle_step np nd pos vel) (f, rij, 0, 0) of
      Inl e \<Rightarrow> ?Q e | Inr s' \<Rightarrow> ?I np s'"
  proof (rule for_loop_rule[where I = ?I])
    show "?I 0 (f, rij, 0, 0)" by simp
  next
    fix k and t :: "real list \<times> real list \<times> real \<times> real"
    assume k: "k < np" and t: "?I k t"
    obtain f' rij' pe' ki' where t_eq: "t = (f', rij', pe', ki')" by (cases t) auto
    from t have f': "f' = forces_upto nd np pos f k" and lr: "length rij' = length rij"
      and pe': "pe' = (\<Sum>k\<leftarrow>[0..<k]. \<Sum>j\<leftarrow>others np k. pair_potential nd pos k j)"
      and ki': "ki' = (\<Sum>k\<leftarrow>[0..<k]. \<Sum>i\<leftarrow>[0..<nd]. (vel ! (i + k * nd))\<^sup>2)"
      and nc: "0 < nd \<longrightarrow> (\<forall>k'<k. \<forall>j<np. j \<noteq> k' \<longrightarrow> distance nd pos k' j \<noteq> 0)"
      by (simp_all add: t_eq)
    have 1: "np * nd \<le> length pos" "np * nd \<le> length vel" "nd \<le> length rij'"
      "np * nd \<le> length f'"
      using pos vel rij lr f by (simp_all add: f')
    have ps: "case particle_step np nd pos vel k (f', rij', pe', ki') of
        Inl e \<Rightarrow> e = DivisionByZero \<and> 0 < nd \<and> (\<exists>j<np. j \<noteq> k \<and> distance nd pos k j = 0)
      | Inr (f'', rij'', pe'', ki'') \<Rightarrow>
        f'' = block_upd nd k nd (\<lambda>s. force_ref nd np pos k (s - k * nd)) f' \<and>
        length rij'' = length rij' \<and>
        pe'' = pe' + (\<Sum>j\<leftarrow>others np k. pair_potential nd pos k j) \<and>
        ki'' = ki' + (\<Sum>i\<leftarrow>[0..<nd]. (vel ! (i + k * nd))\<^sup>2) \<and>
        (0 < nd \<longrightarrow> (\<forall>j<np. j \<noteq> k \<longrightarrow> distance nd pos k j \<noteq> 0))"
      by (rule particle_step_spec[OF k 1])
    show "case particle_step np nd pos vel k t of Inl e \<Rightarrow> ?Q e | Inr t' \<Rightarrow> ?I (Suc k) t'"
    proof (cases "particle_step np nd pos vel k (f', rij', pe', ki')")
      case (Inl e)
      with ps k show ?thesis by (auto simp: t_eq coincident_iff)
    next
      case (Inr t')
      obtain f'' rij'' pe'' ki'' where t': "t' = (f'', rij'', pe'', ki'')" by (cases t') auto
      from ps Inr nc show ?thesis
        by (auto simp: t_eq t' f' forces_upto_Suc lr pe' ki' less_Suc_eq)
    qed
  qed simp
  have full: "forces_upto nd np pos f np
      = map (\<lambda>s. force_ref nd np pos (s div nd) (s mod nd)) [0..<np * nd]"
    by (simp add: forces_upto_def f)
  show ?thesis
  proof (cases "for_loop 0 np (particle_step np nd pos vel) (f, rij, 0, 0)")
    case (Inl e)
    with loop show ?thesis
      by (simp add: compute_def evaluate_ref_def)
  next
    case (Inr t)
    with loop have "\<not> coincident nd np pos"
      by (auto simp: coincident_iff)
    with Inr loop show ?thesis
      by (auto simp: compute_def evaluate_ref_def full potential_ref_def kinetic_ref_def)
  qed
qed


lemma compute_oob:
  assumes "length rij < nd" and "2 \<le> np" and "length f = np * nd"
  shows "compute np nd pos vel mass f rij = Inl OutOfBounds"
proof -
  have np: "0 < np" "Suc 0 < np" using assms(2) by simp_all
  have f0: "0 * nd + nd \<le> length f" using assms(2,3) block_le[of 0 np nd] by simp
  let ?f = "block_upd nd 0 nd (\<lambda>_. 0) f"
  have "pair_step nd pos 0 (Suc 0) (?f, rij, 0) = Inl OutOfBounds"
    by (simp add: pair_step_def dist_oob[OF assms(1)])
  then have "for_loop 0 np (pair_step nd pos 0) (?f, rij, 0) = Inl OutOfBounds"
    by (simp add: for_loop_step[OF np(1)] for_loop_step[OF np(2)] pair_step_self)
  then have "particle_step np nd pos vel 0 (f, rij, 0, 0) = Inl OutOfBounds"
    using zero_block[OF f0] by (simp add: particle_step_def)
  then show ?thesis
    by (simp add: compute_def for_loop_step[OF np(1)])
qed

lemma evaluate_ref_no_oob: "evaluate_ref np nd pos vel mass \<noteq> Inl OutOfBounds"
  by (simp add: evaluate_ref_def)

text \<open>
  Where the three slots of \<open>rij\<close> suffice, that is for at most three dimensions,
  \<open>compute\<close> agrees with the reference double loop \<open>evaluate_ref\<close>: the same forces (the
  clamped distance in the sine, the distance itself in the denominator), the same
  potential and kinetic energy. Where no two particles coincide these are real values.
\<close>

lemma compute_matches_reference:
  assumes "nd \<le> 3" and "length rij = 3"
    and "length pos = np * nd" and "length vel = np * nd" and "length f = np * nd"
  shows "compute np nd pos vel mass f rij = evaluate_ref np nd pos vel mass"
  using assms by (intro compute_evaluate_ref) simp_all

lemma compute_matches_reference_example:
  "((1::nat) \<le> 3 \<and> length [9, 9, 9::real] = 3 \<and> length [0, 2::real] = 2 * 1
       \<and> length [3, 4::real] = 2 * 1 \<and> length [7, 7::real] = 2 * 1) \<and>
   compute 2 1 [0, 2] [3, 4] 2 [7, 7] [9, 9, 9] = evaluate_ref 2 1 [0, 2] [3, 4] 2 \<and>
   evaluate_ref 2 1 [0, 2] [3, 4] 2 =
     Inr ([0 - (0 - 2) * sin (2 * PI2) / 2, 0 - (2 - 0) * sin (2 * PI2) / 2],
          0.5 * (sin PI2)\<^sup>2 + 0.5 * (sin PI2)\<^sup>2,
          0.5 * 2 * (3\<^sup>2 + 4\<^sup>2))"
proof -
  have h: "(1::nat) \<le> 3" "length [9, 9, 9::real] = 3" "length [0, 2::real] = 2 * 1"
    "length [3, 4::real] = 2 * 1" "length [7, 7::real] = 2 * 1"
    by simp_all
  have d: "distance (Suc 0) [0, 2] 0 (Suc 0) = 2" "distance (Suc 0) [0, 2] (Suc 0) 0 = 2"
    by (simp_all add: distance_def displacement_def)
  have c: "clamped 2 = PI2" by (simp add: clamped_def PI2_def)
  have o: "others 2 0 = [1]" "others 2 (Suc 0) = [0]"
    by (simp_all add: others_def numeral_2_eq_2)
  have u: "[0..<2] = [0, Suc 0]" by (simp add: numeral_2_eq_2)
  have "evaluate_ref 2 1 [0, 2] [3, 4] 2 =
     Inr ([0 - (0 - 2) * sin (2 * PI2) / 2, 0 - (2 - 0) * sin (2 * PI2) / 2],
          0.5 * (sin PI2)\<^sup>2 + 0.5 * (sin PI2)\<^sup>2,
          0.5 * 2 * (3\<^sup>2 + 4\<^sup>2))"
    by (simp add: evaluate_ref_def coincident_def force_ref_def potential_ref_def
        kinetic_ref_def pair_force_def pair_potential_def displacement_def o u d c)
  with compute_matches_reference[OF h, of 2] h show ?thesis by blast
qed

lemma compute_reference_values:
  assumes "nd \<le> 3" and "length rij = 3"
    and "length pos = np * nd" and "length vel = np * nd" and "length f = np * nd"
    and "\<not> coincident nd np pos"
  shows "compute np nd pos vel mass f rij =
    Inr (map (\<lambda>s. force_ref nd np pos (s div nd) (s mod nd)) [0..<np * nd],
         potential_ref nd np pos,
         kinetic_ref nd np vel mass)"
  using assms by (simp add: compute_evaluate_ref evaluate_ref_def)

text \<open>
  Claim C1: for every dimension \<open>nd\<close>, \<open>compute\<close> is to match the reference double loop.
  The documentation of \<open>compute\<close> and \<open>dist\<close> takes any \<open>ND\<close> (\<open>F[ND*NP]\<close>, \<open>DR[ND]\<close>), but
  \<open>compute\<close> hands \<open>dist\<close> the array \<open>double rij[3]\<close>. For two particles in four dimensions
  \<open>dist\<close> writes \<open>rij[3]\<close>, outside that array, where the reference has the forces and
  energies of the two particles: there the code does not do what the claim says.
\<close>

theorem compute_rij_overrun:
  "compute 2 4 [0, 0, 0, 0, 2, 0, 0, 0] [0, 0, 0, 0, 0, 0, 0, 0] 1 [0, 0, 0, 0, 0, 0, 0, 0] [0, 0, 0]
     = Inl OutOfBounds \<and>
   compute 2 4 [0, 0, 0, 0, 2, 0, 0, 0] [0, 0, 0, 0, 0, 0, 0, 0] 1 [0, 0, 0, 0, 0, 0, 0, 0] [0, 0, 0]
     \<noteq> evaluate_ref 2 4 [0, 0, 0, 0, 2, 0, 0, 0] [0, 0, 0, 0, 0, 0, 0, 0] 1"
proof -
  have "compute 2 4 [0, 0, 0, 0, 2, 0, 0, 0] [0, 0, 0, 0, 0, 0, 0, 0] 1 [0, 0, 0, 0, 0, 0, 0, 0] [0, 0, 0]
     = Inl OutOfBounds"
    by (rule compute_oob) simp_all
  then show ?thesis by (simp add: evaluate_ref_no_oob[symmetric])
qed

text \<open>
  Claim C9. The array \<open>rij\<close> has three slots. With arrays of \<open>np * nd\<close> slots, \<open>compute\<close>
  never leaves an array when \<open>nd\<close> is at most 3, and it does leave \<open>rij\<close> when \<open>nd\<close>
  exceeds 3 and there are at least two particles.
\<close>

theorem compute_rij_in_bounds:
  assumes "length rij = 3"
    and "length pos = np * nd" and "length vel = np * nd" and "length f = np * nd"
  shows "(nd \<le> 3 \<longrightarrow> compute np nd pos vel mass f rij \<noteq> Inl OutOfBounds) \<and>
    (3 < nd \<and> 2 \<le> np \<longrightarrow> compute np nd pos vel mass f rij = Inl OutOfBounds)"
proof (intro conjI impI)
  assume "nd \<le> 3"
  then have "compute np nd pos vel mass f rij = evaluate_ref np nd pos vel mass"
    using assms by (intro compute_evaluate_ref) simp_all
  then show "compute np nd pos vel mass f rij \<noteq> Inl OutOfBounds"
    by (simp add: evaluate_ref_no_oob)
next
  assume "3 < nd \<and> 2 \<le> np"
  then show "compute np nd pos vel mass f rij = Inl OutOfBounds"
    using assms by (intro compute_oob) simp_all
qed

theorem compute_rij_in_bounds_witness:
  "((length [9, 9, 9::real] = 3 \<and> length [0, 2::real] = 2 * 1 \<and> length [3, 4::real] = 2 * 1
       \<and> length [7, 7::real] = 2 * 1 \<and> (1::nat) \<le> 3) \<and>
     compute 2 1 [0, 2] [3, 4] 2 [7, 7] [9, 9, 9] \<noteq> Inl OutOfBounds) \<and>
   ((length [9, 9, 9::real] = 3 \<and> length [0, 0, 0, 0, 2, 0, 0, 0::real] = 2 * 4
       \<and> length [0, 0, 0, 0, 0, 0, 0, 0::real] = 2 * 4 \<and> (3::nat) < 4 \<and> (2::nat) \<le> 2) \<and>
     compute 2 4 [0, 0, 0, 0, 2, 0, 0, 0] [0, 0, 0, 0, 0, 0, 0, 0] 1 [0, 0, 0, 0, 0, 0, 0, 0]
       [9, 9, 9] = Inl OutOfBounds)"
proof -
  have 1: "length [9, 9, 9::real] = 3" "length [0, 2::real] = 2 * 1" "length [3, 4::real] = 2 * 1"
    "length [7, 7::real] = 2 * 1"
    by simp_all
  have 2: "length [9, 9, 9::real] = 3" "length [0, 0, 0, 0, 2, 0, 0, 0::real] = 2 * 4"
    "length [0, 0, 0, 0, 0, 0, 0, 0::real] = 2 * 4" "length [0, 0, 0, 0, 0, 0, 0, 0::real] = 2 * 4"
    by simp_all
  from compute_rij_in_bounds[OF 1, of 2] compute_rij_in_bounds[OF 2, of 1] 1 2
  show ?thesis by simp
qed

text \<open>
  Claim C10. For two different particles \<open>k\<close> and \<open>j\<close>, what the body of the loop over
  \<open>j\<close> adds to the force on \<open>k\<close> on account of \<open>j\<close> is, in every dimension, the negation
  of what it adds to the force on \<open>j\<close> on account of \<open>k\<close>. When the two particles
  coincide both quotients are \<open>0 / 0\<close> and neither has a real value.
\<close>

theorem pair_step_newton_third_law:
  assumes "k \<noteq> j" and "k < np" and "j < np"
    and "nd \<le> 3" and "length rij = 3" and "length pos = np * nd" and "length f = np * nd"
  shows "(0 < nd \<and> distance nd pos k j = 0 \<and>
          pair_step nd pos k j (f, rij, pe) = Inl DivisionByZero \<and>
          pair_step nd pos j k (f, rij, pe) = Inl DivisionByZero) \<or>
    (\<exists>f1 r1 p1 f2 r2 p2.
       pair_step nd pos k j (f, rij, pe) = Inr (f1, r1, p1) \<and>
       pair_step nd pos j k (f, rij, pe) = Inr (f2, r2, p2) \<and>
       (\<forall>i<nd. f1 ! (i + k * nd) - f ! (i + k * nd) = - (f2 ! (i + j * nd) - f ! (i + j * nd))))"
proof -
  have kp: "k * nd + nd \<le> length pos" "k * nd + nd \<le> length f"
    using block_le[OF assms(2), of nd] assms(6,7) by simp_all
  have jp: "j * nd + nd \<le> length pos" "j * nd + nd \<le> length f"
    using block_le[OF assms(3), of nd] assms(6,7) by simp_all
  have r: "nd \<le> length rij" using assms(4,5) by simp
  have jk: "j \<noteq> k" using assms(1) by simp
  have sym: "distance nd pos j k = distance nd pos k j"
    unfolding distance_def displacement_def
    by (rule arg_cong[where f = sqrt], rule arg_cong[where f = sum_list])
      (simp add: power2_commute)
  have flip: "displacement nd pos j k i = - displacement nd pos k j i" for i
    by (simp add: displacement_def)
  have anti: "pair_force nd pos j k i = - pair_force nd pos k j i" for i
    unfolding pair_force_def sym flip by simp
  consider (zero) "nd = 0" | (div0) "0 < nd" "distance nd pos k j = 0"
    | (ok) "0 < nd" "distance nd pos k j \<noteq> 0"
    by fastforce
  then show ?thesis
  proof cases
    case zero
    then show ?thesis using assms(1) jk by (simp add: pair_step_nd0)
  next
    case div0
    from pair_step_div0[OF assms(1) kp(1) jp(1) r kp(2) div0]
      pair_step_div0[OF jk jp(1) kp(1) r jp(2) div0(1)] div0 sym
    show ?thesis by simp
  next
    case ok
    have ok': "distance nd pos j k \<noteq> 0" using ok sym by simp
    have "i + k * nd < length f" "i + j * nd < length f" if "i < nd" for i
      using that kp jp by simp_all
    then show ?thesis
      by (simp add: pair_step_ok[OF assms(1) kp(1) jp(1) r kp(2) ok(2)]
          pair_step_ok[OF jk jp(1) kp(1) r jp(2) ok'] nth_block_upd anti)
  qed
qed

theorem pair_step_newton_third_law_witness:
  "((0::nat) \<noteq> 1 \<and> (0::nat) < 2 \<and> (1::nat) < 2 \<and> (1::nat) \<le> 3 \<and> length [9, 9, 9::real] = 3
      \<and> length [0, 1::real] = 2 * 1 \<and> length [5, 6::real] = 2 * 1) \<and>
   (\<exists>f1 r1 p1 f2 r2 p2.
       pair_step 1 [0, 1] 0 1 ([5, 6], [9, 9, 9], 0) = Inr (f1, r1, p1) \<and>
       pair_step 1 [0, 1] 1 0 ([5, 6], [9, 9, 9], 0) = Inr (f2, r2, p2) \<and>
       (\<forall>i<1. f1 ! (i + 0 * 1) - [5, 6] ! (i + 0 * 1) = - (f2 ! (i + 1 * 1) - [5, 6] ! (i + 1 * 1))))"
proof -
  have h: "(0::nat) \<noteq> 1" "(0::nat) < 2" "(1::nat) < 2" "(1::nat) \<le> 3" "length [9, 9, 9::real] = 3"
    "length [0, 1::real] = 2 * 1" "length [5, 6::real] = 2 * 1"
    by simp_all
  have d: "distance 1 [0, 1] 0 1 \<noteq> 0"
    by (simp add: distance_def displacement_def)
  from pair_step_newton_third_law[OF h, of 0] d h show ?thesis by blast
qed

subsection \<open>The saturated potential\<close>

text \<open>
  When every two particles are at least \<open>PI2\<close> apart, every ordered pair adds
  \<open>0.5 * sin\<^sup>2 PI2\<close> to the potential. In exact arithmetic \<open>sin PI2\<close> is not 1, since \<open>PI2\<close>
  is a rational number; the C library rounds it to 1.0.
\<close>

lemma length_others: "k < n \<Longrightarrow> length (others n k) = n - 1"
proof (induction n)
  case 0
  then show ?case by simp
next
  case (Suc n)
  show ?case
  proof (cases "k = n")
    case True
    have "others n n = [0..<n]" by (simp add: others_def)
    then show ?thesis using True by (simp add: others_Suc)
  next
    case False
    with Suc show ?thesis by (simp add: others_Suc)
  qed
qed

lemma sum_list_const:
  fixes f :: "'a \<Rightarrow> real"
  assumes "\<And>x. x \<in> set xs \<Longrightarrow> f x = c"
  shows "(\<Sum>x\<leftarrow>xs. f x) = real (length xs) * c"
  using assms by (induction xs) (simp_all add: algebra_simps)

lemma potential_saturated:
  assumes "\<forall>k<np. \<forall>j<np. j \<noteq> k \<longrightarrow> PI2 \<le> distance nd pos k j"
  shows "potential_ref nd np pos = 0.5 * real np * (real np - 1) * (sin PI2)\<^sup>2"
proof -
  have pp: "pair_potential nd pos k j = 0.5 * (sin PI2)\<^sup>2" if "k < np" "j \<in> set (others np k)" for k j
  proof -
    from that have "j < np" "j \<noteq> k" by (simp_all add: set_others)
    with assms that(1) have "PI2 \<le> distance nd pos k j" by blast
    then have "clamped (distance nd pos k j) = PI2" by (simp add: clamped_def)
    then show ?thesis by (simp add: pair_potential_def)
  qed
  have row: "(\<Sum>j\<leftarrow>others np k. pair_potential nd pos k j) = (real np - 1) * (0.5 * (sin PI2)\<^sup>2)"
    if k: "k \<in> set [0..<np]" for k
  proof -
    have k': "k < np" using k by simp
    have "(\<Sum>j\<leftarrow>others np k. pair_potential nd pos k j)
        = real (length (others np k)) * (0.5 * (sin PI2)\<^sup>2)"
      by (rule sum_list_const) (rule pp[OF k'])
    then show ?thesis using k' by (simp add: length_others of_nat_diff)
  qed
  have "potential_ref nd np pos = real (length [0..<np]) * ((real np - 1) * (0.5 * (sin PI2)\<^sup>2))"
    unfolding potential_ref_def by (rule sum_list_const) (rule row)
  then show ?thesis by simp
qed

section \<open>The driver\<close>

lemma main_iter_0:
  "main_iter np nd mass dt rij 0 st0 = driver_state np nd mass dt rij st0 0"
  by (cases st0)
    (auto simp: main_iter_def bnd_def Let_def split: sum.splits prod.splits)

lemma main_iter_Suc:
  "main_iter np nd mass dt rij (Suc s) st =
     bnd (update np nd (m_pos st) (m_vel st) (m_force st) (m_acc st) mass dt) (\<lambda>(pos, vel, acc).
     bnd (compute np nd pos vel mass (m_force st) (rij (Suc s))) (\<lambda>(f, pot, kin).
     Inr (st\<lparr>m_acc := acc, m_force := f, m_pos := pos, m_vel := vel,
             m_potential := pot, m_kinetic := kin\<rparr>)))"
  by (cases st)
    (auto simp: main_iter_def bnd_def Let_def split: sum.splits prod.splits)

lemma bnd_cong: "(\<And>x. m = Inr x \<Longrightarrow> g x = h x) \<Longrightarrow> bnd m g = bnd m h"
  by (cases m) simp_all

lemma main_loop_driver_state:
  "for_loop 0 (Suc n) (main_iter np nd mass dt rij) st0 = driver_state np nd mass dt rij st0 n"
proof (induction n)
  case 0
  show ?case
    by (simp add: for_loop_snoc[of 0] for_loop_done main_iter_0 del: driver_state.simps)
next
  case (Suc n)
  have "for_loop 0 (Suc (Suc n)) (main_iter np nd mass dt rij) st0
      = bnd (driver_state np nd mass dt rij st0 n) (main_iter np nd mass dt rij (Suc n))"
    by (subst for_loop_snoc) (simp only: Suc)
  also have "\<dots> = driver_state np nd mass dt rij st0 (Suc n)"
    unfolding driver_state.simps by (rule bnd_cong) (simp only: main_iter_Suc)
  finally show ?case .
qed

lemma main_with_driver:
  "main_with np nd step_num dt mass g =
     bnd (driver_state np nd mass dt (g_rij g) (fresh_state np nd g) step_num) driver_report"
proof -
  have "main_with np nd step_num dt mass g =
     bnd (for_loop 0 (Suc step_num) (main_iter np nd mass dt (g_rij g)) (fresh_state np nd g))
       (\<lambda>st. bnd (fdiv (m_potential st + m_kinetic st - m_e0 st) (m_e0 st)) (\<lambda>drift.
         Inr ((m_potential st, m_kinetic st, drift), 0)))"
    by (simp add: main_with_def fresh_state_def Let_def)
  also have "\<dots> = bnd (driver_state np nd mass dt (g_rij g) (fresh_state np nd g) step_num)
      driver_report"
    unfolding main_loop_driver_state by (rule bnd_cong) (simp only: driver_report_def)
  finally show ?thesis .
qed


lemma zero_all:
  assumes "np * nd \<le> length v"
  shows "for_loop 0 np (\<lambda>j. for_loop 0 nd (\<lambda>i v. wr v (i + j * nd) 0)) v
    = Inr (map (\<lambda>s. if s < np * nd then 0 else v ! s) [0..<length v])"
proof (rule for_loop_eq[where g = "\<lambda>j. map (\<lambda>s. if s < j * nd then 0 else v ! s) [0..<length v]"])
  fix j assume j: "j < np"
  let ?g = "\<lambda>j. map (\<lambda>s. if s < j * nd then 0 else v ! s) [0..<length v]"
  have l: "j * nd + nd \<le> length (?g j)" using block_le[OF j, of nd] assms by simp
  have "block_upd nd j nd (\<lambda>_. 0) (?g j) = ?g (Suc j)"
    by (auto intro!: nth_equalityI simp: nth_block_upd)
  with zero_block[OF l] show "for_loop 0 nd (\<lambda>i v. wr v (i + j * nd) 0) (?g j) = Inr (?g (Suc j))"
    by simp
qed (auto intro!: nth_equalityI)

lemma initialize_eq:
  assumes "np * nd \<le> length pos" and "np * nd \<le> length vel" and "np * nd \<le> length acc"
  shows "initialize np nd pos vel acc =
    Inr (map (drawn 0 10 123456789) [0..<nd * np] @ drop (nd * np) pos,
         map (\<lambda>s. if s < np * nd then 0 else vel ! s) [0..<length vel],
         map (\<lambda>s. if s < np * nd then 0 else acc ! s) [0..<length acc])"
proof -
  have "in_int 123456789" by (simp add: in_int_def)
  moreover have "nd * np \<le> length pos" using assms(1) by (simp add: mult.commute)
  ultimately have "r8mat_uniform_ab nd np 0 10 123456789 pos
      = Inr (filled 0 10 123456789 pos (nd * np))"
    by (intro r8mat_uniform_ab_filled) simp_all
  then show ?thesis
    by (simp add: initialize_def filled_def zero_all[OF assms(2)] zero_all[OF assms(3)])
qed

lemma evaluate_ref_cases:
  "evaluate_ref np nd pos vel mass = Inl DivisionByZero \<or>
   (\<exists>f pot kin. evaluate_ref np nd pos vel mass = Inr (f, pot, kin) \<and> length f = np * nd)"
  by (simp add: evaluate_ref_def)

lemma update_cases:
  assumes "length pos = n" "length vel = n" "length acc = n" "length f = n" "n = np * nd"
  shows "update np nd pos vel f acc mass dt = Inl DivisionByZero \<or>
   (\<exists>pos' vel' acc'. update np nd pos vel f acc mass dt = Inr (pos', vel', acc') \<and>
      length pos' = n \<and> length vel' = n \<and> length acc' = n)"
proof (cases "mass = 0")
  case True
  then show ?thesis by (simp add: update_def fdiv_def)
next
  case False
  then have "update np nd pos vel f acc mass dt = Inr (advanced mass dt f pos vel acc (np * nd))"
    using assms by (intro update_advanced) simp_all
  then show ?thesis using assms by (simp add: advanced_def)
qed

lemma driver_state_cases:
  assumes nd: "nd \<le> 3" and rij: "\<forall>s. length (rij s) = 3" and st0: "sized (np * nd) st0"
  shows "driver_state np nd mass dt rij st0 n = Inl DivisionByZero \<or>
    (\<exists>st. driver_state np nd mass dt rij st0 n = Inr st \<and> sized (np * nd) st)"
proof (induction n)
  case 0
  from st0 have l: "np * nd \<le> length (m_pos st0)" "np * nd \<le> length (m_vel st0)"
    "np * nd \<le> length (m_acc st0)"
    and e: "length (m_pos st0) = np * nd" "length (m_vel st0) = np * nd"
      "length (m_acc st0) = np * nd" "length (m_force st0) = np * nd"
    by (simp_all add: sized_def)
  obtain pos vel acc where i: "initialize np nd (m_pos st0) (m_vel st0) (m_acc st0) = Inr (pos, vel, acc)"
    and li: "length pos = np * nd" "length vel = np * nd" "length acc = np * nd"
    using initialize_eq[OF l] e by (simp add: mult.commute)
  have c: "compute np nd pos vel mass (m_force st0) (rij 0) = evaluate_ref np nd pos vel mass"
    using nd rij li e by (intro compute_evaluate_ref) simp_all
  from evaluate_ref_cases[of np nd pos vel mass] show ?case
    using li by (auto simp: i c sized_def)
next
  case (Suc n)
  from Suc show ?case
  proof
    assume "driver_state np nd mass dt rij st0 n = Inl DivisionByZero"
    then show ?thesis by simp
  next
    assume "\<exists>st. driver_state np nd mass dt rij st0 n = Inr st \<and> sized (np * nd) st"
    then obtain st where d: "driver_state np nd mass dt rij st0 n = Inr st"
      and e: "length (m_pos st) = np * nd" "length (m_vel st) = np * nd"
      "length (m_acc st) = np * nd" "length (m_force st) = np * nd"
      by (auto simp: sized_def)
    from update_cases[OF e(1,2,3,4) refl, of mass dt] show ?thesis
    proof
      assume "update np nd (m_pos st) (m_vel st) (m_force st) (m_acc st) mass dt
          = Inl DivisionByZero"
      then show ?thesis by (simp add: d)
    next
      assume "\<exists>pos' vel' acc'.
          update np nd (m_pos st) (m_vel st) (m_force st) (m_acc st) mass dt
            = Inr (pos', vel', acc') \<and>
          length pos' = np * nd \<and> length vel' = np * nd \<and> length acc' = np * nd"
      then obtain pos vel acc where
        u: "update np nd (m_pos st) (m_vel st) (m_force st) (m_acc st) mass dt = Inr (pos, vel, acc)"
        and lu: "length pos = np * nd" "length vel = np * nd" "length acc = np * nd"
        by blast
      have c: "compute np nd pos vel mass (m_force st) (rij (Suc n))
          = evaluate_ref np nd pos vel mass"
        using nd rij lu e by (intro compute_evaluate_ref) simp_all
      from evaluate_ref_cases[of np nd pos vel mass] show ?thesis
        using lu by (auto simp: d u c sized_def)
    qed
  qed
qed

lemma sized_fresh_state: "sized (np * nd) (fresh_state np nd g)"
  by (simp add: sized_def fresh_state_def malloc_doubles_def mult.commute)

lemma driver_report_cases:
  "driver_report st = Inl DivisionByZero \<or> (\<exists>out. driver_report st = Inr (out, 0))"
  by (simp add: driver_report_def fdiv_def)


text \<open>
  Claim C3. For every number of steps \<open>step_num\<close> the time stepping loop runs the
  \<open>step_num + 1\<close> iterations 0 to \<open>step_num\<close> in sequence and \<open>main\<close> reports what the
  driver of the spec reports after step \<open>step_num\<close>: the final potential and kinetic
  energy and \<open>(potential + kinetic - e0) / e0\<close>, with exit status 0. This holds for the
  constants of the source (2000 particles, 3 dimensions, 100 steps). With at most three
  dimensions the program leaves no array and does not exit early: it reports, unless a
  division by zero occurs (coinciding particles, or a mass or reference energy of 0).
\<close>

theorem main_with_driver_steps:
  "main_with np nd step_num dt mass g =
     bnd (driver_state np nd mass dt (g_rij g) (fresh_state np nd g) step_num) driver_report \<and>
   main g =
     bnd (driver_state 2000 3 1 (1 / 10000) (g_rij g) (fresh_state 2000 3 g) 100) driver_report \<and>
   (nd \<le> 3 \<and> (\<forall>s. length (g_rij g s) = 3) \<longrightarrow>
      main_with np nd step_num dt mass g = Inl DivisionByZero \<or>
      (\<exists>out. main_with np nd step_num dt mass g = Inr (out, 0)))"
proof (intro conjI impI)
  show "main_with np nd step_num dt mass g =
     bnd (driver_state np nd mass dt (g_rij g) (fresh_state np nd g) step_num) driver_report"
    by (rule main_with_driver)
  show "main g =
     bnd (driver_state 2000 3 1 (1 / 10000) (g_rij g) (fresh_state 2000 3 g) 100) driver_report"
    by (simp add: main_def main_with_driver)
  assume "nd \<le> 3 \<and> (\<forall>s. length (g_rij g s) = 3)"
  then have "driver_state np nd mass dt (g_rij g) (fresh_state np nd g) step_num = Inl DivisionByZero \<or>
    (\<exists>st. driver_state np nd mass dt (g_rij g) (fresh_state np nd g) step_num = Inr st
       \<and> sized (np * nd) st)"
    by (intro driver_state_cases sized_fresh_state) simp_all
  then show "main_with np nd step_num dt mass g = Inl DivisionByZero \<or>
      (\<exists>out. main_with np nd step_num dt mass g = Inr (out, 0))"
  proof
    assume "driver_state np nd mass dt (g_rij g) (fresh_state np nd g) step_num
        = Inl DivisionByZero"
    then show ?thesis by (simp add: main_with_driver)
  next
    assume "\<exists>st. driver_state np nd mass dt (g_rij g) (fresh_state np nd g) step_num = Inr st
       \<and> sized (np * nd) st"
    then obtain st where
      "driver_state np nd mass dt (g_rij g) (fresh_state np nd g) step_num = Inr st"
      by blast
    with driver_report_cases[of st] show ?thesis by (simp add: main_with_driver)
  qed
qed

theorem main_with_driver_steps_witness:
  "((1::nat) \<le> 3 \<and>
    (\<forall>s. length (g_rij \<lparr>g_acc = \<lambda>_. 0, g_force = \<lambda>_. 0, g_pos = \<lambda>_. 0, g_vel = \<lambda>_. 0,
        g_potential = 0, g_kinetic = 0, g_e0 = 0, g_rij = \<lambda>_. [0, 0, 0]\<rparr> s) = 3)) \<and>
   (main_with 2 1 1 (1 / 2) 1 \<lparr>g_acc = \<lambda>_. 0, g_force = \<lambda>_. 0, g_pos = \<lambda>_. 0, g_vel = \<lambda>_. 0,
        g_potential = 0, g_kinetic = 0, g_e0 = 0, g_rij = \<lambda>_. [0, 0, 0]\<rparr> = Inl DivisionByZero \<or>
    (\<exists>out. main_with 2 1 1 (1 / 2) 1 \<lparr>g_acc = \<lambda>_. 0, g_force = \<lambda>_. 0, g_pos = \<lambda>_. 0,
        g_vel = \<lambda>_. 0, g_potential = 0, g_kinetic = 0, g_e0 = 0, g_rij = \<lambda>_. [0, 0, 0]\<rparr>
      = Inr (out, 0)))"
proof -
  let ?g = "\<lparr>g_acc = \<lambda>_. 0, g_force = \<lambda>_. 0, g_pos = \<lambda>_. 0, g_vel = \<lambda>_. 0,
        g_potential = 0, g_kinetic = 0, g_e0 = 0, g_rij = \<lambda>_. [0, 0, 0]\<rparr>"
  have h: "(1::nat) \<le> 3 \<and> (\<forall>s. length (g_rij ?g s) = 3)" by simp
  with main_with_driver_steps[of 2 1 1 "1 / 2" 1 ?g] show ?thesis by blast
qed

end
